theory Spec2Isabelle
  imports Main
begin

section \<open>Python values\<close>

text \<open>
  The converter of \<^verbatim>\<open>parquet2jsonl.py\<close> is dynamically typed: its argument is
  either a plain Python object or a pyarrow object, and its result is a plain Python
  object. Plain Python objects are modelled by \<open>pyval\<close>. A dictionary is kept as the
  list of its entries in insertion order. \<open>PyOther\<close> stands for a hashable value of
  another builtin type whose equality is that of its printed form (bytes, date, time,
  naive datetime), tagged with the text \<^verbatim>\<open>str()\<close> gives for it; floating-point and
  decimal numbers are outside the model.
\<close>

datatype pyval =
    PyNone
  | PyBool bool
  | PyInt int
  | PyStr string
  | PyOther string
  | PyTuple "pyval list"
  | PyList "pyval list"
  | PyDict "(pyval \<times> pyval) list"

text \<open>
  The exceptions the modelled code can raise. \<^verbatim>\<open>RecursionError\<close> is raised only where
  the depth of the recursion is modelled, on the store of objects below.
\<close>

datatype error = IndexError | TypeError | KeyError | ReadError | RecursionError

text \<open>
  Lists and dictionaries are unhashable, and a tuple is hashable when its elements
  are: storing under an unhashable key raises \<^verbatim>\<open>TypeError\<close>.
\<close>

fun hashable :: "pyval \<Rightarrow> bool" where
  "hashable (PyList xs) = False"
| "hashable (PyDict kvs) = False"
| "hashable (PyTuple xs) = list_all hashable xs"
| "hashable v = True"

text \<open>
  Equality of dictionary keys is Python's \<^verbatim>\<open>==\<close>, under which \<^verbatim>\<open>True == 1\<close> and
  \<^verbatim>\<open>False == 0\<close> (with equal hashes). \<open>key_norm\<close> maps a key to the representative
  of its equality class.
\<close>

fun key_norm :: "pyval \<Rightarrow> pyval" where
  "key_norm (PyBool b) = PyInt (if b then 1 else 0)"
| "key_norm (PyTuple xs) = PyTuple (map key_norm xs)"
| "key_norm v = v"

definition py_eq :: "pyval \<Rightarrow> pyval \<Rightarrow> bool" where
  "py_eq a b = (key_norm a = key_norm b)"

text \<open>
  \<^verbatim>\<open>d[k] = v\<close>: an entry whose key equals \<open>k\<close> keeps its key and its place and
  gets the new value; otherwise the entry is appended.
\<close>

fun dict_update :: "(pyval \<times> 'v) list \<Rightarrow> pyval \<Rightarrow> 'v \<Rightarrow> (pyval \<times> 'v) list" where
  "dict_update [] k v = [(k, v)]"
| "dict_update ((k', v') # d) k v =
     (if py_eq k' k then (k', v) # d else (k', v') # dict_update d k v)"

definition dict_setitem ::
  "(pyval \<times> 'v) list \<Rightarrow> pyval \<Rightarrow> 'v \<Rightarrow> error + (pyval \<times> 'v) list" where
  "dict_setitem d k v = (if hashable k then Inr (dict_update d k v) else Inl TypeError)"

text \<open>\<^verbatim>\<open>d[k]\<close> read back: the value stored under a key equal to \<open>k\<close>.\<close>

fun dict_get :: "(pyval \<times> 'v) list \<Rightarrow> pyval \<Rightarrow> 'v option" where
  "dict_get [] k = None"
| "dict_get ((k', v') # d) k = (if py_eq k' k then Some v' else dict_get d k)"

section \<open>The converter on plain Python objects\<close>

text \<open>
  On a plain Python object every \<^verbatim>\<open>isinstance\<close> test against a pyarrow class fails,
  so \<^verbatim>\<open>convert_arrow_value_to_python\<close> runs lines 22-23 and 60-68:
  \<^verbatim>\<open>
    if value is None:
        return None
    ...
    if isinstance(value, dict):
        return {k: convert_arrow_value_to_python(v) for k, v in value.items()}
    if isinstance(value, list):
        return [convert_arrow_value_to_python(item) for item in value]
    return value
  \<close>
  \<open>convert_py_list\<close> is the list comprehension and \<open>convert_py_items\<close> the dictionary
  comprehension, which stores each converted value under its key in a new dictionary.
\<close>

fun convert_py :: "pyval \<Rightarrow> error + pyval"
  and convert_py_list :: "pyval list \<Rightarrow> error + pyval list"
  and convert_py_items ::
    "(pyval \<times> pyval) list \<Rightarrow> (pyval \<times> pyval) list \<Rightarrow> error + (pyval \<times> pyval) list"
where
  "convert_py PyNone = Inr PyNone"
| "convert_py (PyDict kvs) =
     (case convert_py_items kvs [] of Inl e \<Rightarrow> Inl e | Inr d \<Rightarrow> Inr (PyDict d))"
| "convert_py (PyList xs) =
     (case convert_py_list xs of Inl e \<Rightarrow> Inl e | Inr ys \<Rightarrow> Inr (PyList ys))"
| "convert_py (PyBool b) = Inr (PyBool b)"
| "convert_py (PyInt i) = Inr (PyInt i)"
| "convert_py (PyStr s) = Inr (PyStr s)"
| "convert_py (PyOther s) = Inr (PyOther s)"
| "convert_py (PyTuple xs) = Inr (PyTuple xs)"
| "convert_py_list [] = Inr []"
| "convert_py_list (x # xs) =
     (case convert_py x of Inl e \<Rightarrow> Inl e
      | Inr y \<Rightarrow> (case convert_py_list xs of Inl e \<Rightarrow> Inl e | Inr ys \<Rightarrow> Inr (y # ys)))"
| "convert_py_items [] acc = Inr acc"
| "convert_py_items ((k, v) # kvs) acc =
     (case convert_py v of Inl e \<Rightarrow> Inl e
      | Inr v' \<Rightarrow>
          (case dict_setitem acc k v' of Inl e \<Rightarrow> Inl e
           | Inr acc' \<Rightarrow> convert_py_items kvs acc'))"

section \<open>pyarrow values\<close>

text \<open>
  A pyarrow object is modelled by what the accessors the converter calls return for it
  (pyarrow itself is a library outside the repository):
  \<^item> \<open>MapArray keys items\<close>: \<^verbatim>\<open>value.keys.to_pylist()\<close> and
    \<^verbatim>\<open>value.items.to_pylist()\<close>, lists of plain Python objects;
  \<^item> \<open>ListArray xs\<close>, \<open>LargeListArray xs\<close>: \<^verbatim>\<open>value.to_pylist()\<close>;
  \<^item> \<open>StructArray fields\<close>: for every field of \<^verbatim>\<open>value.type\<close>, in schema order,
    its name and its child array, which is what \<^verbatim>\<open>value.field(field.name)\<close> returns
    when the type has the name once. pyarrow never returns \<^verbatim>\<open>None\<close> there: a field that
    is null has a child array that holds the null. The value \<open>Obj PyNone\<close> of a field
    stands for the \<^verbatim>\<open>None\<close> that line 44 tests for;
  \<^item> \<open>Array xs\<close> (any other \<^verbatim>\<open>pa.Array\<close>): \<^verbatim>\<open>item.as_py()\<close> of each element;
  \<^item> \<open>Scalar v\<close>: \<^verbatim>\<open>value.as_py()\<close>;
  \<^item> \<open>Obj v\<close>: a plain Python object, \<^verbatim>\<open>None\<close> included.
\<close>

datatype arrow_value =
    Obj pyval
  | MapArray "pyval list" "pyval list"
  | ListArray "pyval list"
  | LargeListArray "pyval list"
  | StructArray "(string \<times> arrow_value) list"
  | Array "pyval list"
  | Scalar pyval

text \<open>
  Lines 30-32, the loop of the map branch over \<^verbatim>\<open>range(len(keys))\<close>:
  \<^verbatim>\<open>
    for i in range(len(keys)):
        if keys[i] is not None:
            result[convert_arrow_value_to_python(keys[i])] = convert_arrow_value_to_python(items[i])
  \<close>
  Python evaluates the right-hand side of the assignment first, so \<^verbatim>\<open>items[i]\<close>
  raises \<^verbatim>\<open>IndexError\<close> before the key is converted or stored.
\<close>

fun map_array_loop ::
  "pyval list \<Rightarrow> pyval list \<Rightarrow> nat list \<Rightarrow> (pyval \<times> pyval) list
     \<Rightarrow> error + (pyval \<times> pyval) list" where
  "map_array_loop keys items [] result = Inr result"
| "map_array_loop keys items (i # is) result =
     (if keys ! i \<noteq> PyNone then
        (if i < length items then
           (case convert_py (items ! i) of Inl e \<Rightarrow> Inl e
            | Inr v \<Rightarrow>
                (case convert_py (keys ! i) of Inl e \<Rightarrow> Inl e
                 | Inr k \<Rightarrow>
                     (case dict_setitem result k v of Inl e \<Rightarrow> Inl e
                      | Inr result' \<Rightarrow> map_array_loop keys items is result')))
         else Inl IndexError)
      else map_array_loop keys items is result)"

text \<open>
  \<^verbatim>\<open>convert_arrow_value_to_python\<close>, lines 17-68, branch by branch in the order of
  the source. \<open>struct_array_loop\<close> is the loop of lines 42-45 over the schema fields:
  \<^verbatim>\<open>
    for field in value.type:
        field_value = value.field(field.name)
        if field_value is not None:
            result[field.name] = convert_arrow_value_to_python(field_value)
  \<close>
  Its first argument holds the names of all the fields of \<^verbatim>\<open>value.type\<close>: the lookup
  \<^verbatim>\<open>value.field(name)\<close> by name raises \<^verbatim>\<open>KeyError\<close> unless the type has the name
  exactly once.
\<close>

fun convert_arrow_value_to_python :: "arrow_value \<Rightarrow> error + pyval"
  and struct_array_loop ::
    "string list \<Rightarrow> (string \<times> arrow_value) list \<Rightarrow> (pyval \<times> pyval) list
       \<Rightarrow> error + (pyval \<times> pyval) list"
where
  "convert_arrow_value_to_python (Obj v) = convert_py v"
| "convert_arrow_value_to_python (MapArray keys items) =
     (case map_array_loop keys items [0..<length keys] [] of
        Inl e \<Rightarrow> Inl e | Inr result \<Rightarrow> Inr (PyDict result))"
| "convert_arrow_value_to_python (ListArray xs) =
     (case convert_py_list xs of Inl e \<Rightarrow> Inl e | Inr ys \<Rightarrow> Inr (PyList ys))"
| "convert_arrow_value_to_python (LargeListArray xs) =
     (case convert_py_list xs of Inl e \<Rightarrow> Inl e | Inr ys \<Rightarrow> Inr (PyList ys))"
| "convert_arrow_value_to_python (StructArray fields) =
     (case struct_array_loop (map fst fields) fields [] of
        Inl e \<Rightarrow> Inl e | Inr result \<Rightarrow> Inr (PyDict result))"
| "convert_arrow_value_to_python (Array xs) =
     (if length xs = 0 then Inr PyNone
      else if length xs = 1 then convert_py (xs ! 0)
      else (case convert_py_list xs of Inl e \<Rightarrow> Inl e | Inr ys \<Rightarrow> Inr (PyList ys)))"
| "convert_arrow_value_to_python (Scalar v) = convert_py v"
| "struct_array_loop names [] result = Inr result"
| "struct_array_loop names ((name, field_value) # fields) result =
     (if count_list names name \<noteq> 1 then Inl KeyError
      else if field_value \<noteq> Obj PyNone then
        (case convert_arrow_value_to_python field_value of Inl e \<Rightarrow> Inl e
         | Inr v \<Rightarrow>
             (case dict_setitem result (PyStr name) v of Inl e \<Rightarrow> Inl e
              | Inr result' \<Rightarrow> struct_array_loop names fields result'))
      else struct_array_loop names fields result)"

section \<open>Serialisation: \<^verbatim>\<open>json.dumps(row_dict, ensure_ascii=False, default=str)\<close>\<close>

text \<open>
  The standard encoder, on the values of the model. A string is quoted, with
  \<^verbatim>\<open>"\<close>, \<^verbatim>\<open>\\<close> and the control characters below \<^verbatim>\<open>0x20\<close> escaped; everything
  else is written as it is (\<^verbatim>\<open>ensure_ascii=False\<close>).
\<close>

definition hex_digit :: "nat \<Rightarrow> char" where
  "hex_digit n = ''0123456789abcdef'' ! n"

definition escape_char :: "char \<Rightarrow> string" where
  "escape_char c =
     (if c = CHR 0x22 then [CHR 0x5C, CHR 0x22]
      else if c = CHR 0x5C then [CHR 0x5C, CHR 0x5C]
      else if c = CHR 0x0A then [CHR 0x5C, CHR ''n'']
      else if c = CHR 0x0D then [CHR 0x5C, CHR ''r'']
      else if c = CHR 0x09 then [CHR 0x5C, CHR ''t'']
      else if c = CHR 0x08 then [CHR 0x5C, CHR ''b'']
      else if c = CHR 0x0C then [CHR 0x5C, CHR ''f'']
      else if (of_char c :: nat) < 32 then
        [CHR 0x5C, CHR ''u'', CHR ''0'', CHR ''0'',
         hex_digit ((of_char c :: nat) div 16), hex_digit ((of_char c :: nat) mod 16)]
      else [c])"

definition json_string :: "string \<Rightarrow> string" where
  "json_string s = CHR 0x22 # concat (map escape_char s) @ [CHR 0x22]"

text \<open>\<^verbatim>\<open>int.__repr__\<close>: decimal digits, with a minus sign for a negative number.\<close>

definition digit_char :: "nat \<Rightarrow> char" where
  "digit_char n = ''0123456789'' ! n"

fun show_nat :: "nat \<Rightarrow> string" where
  "show_nat n = (if n < 10 then [digit_char n] else show_nat (n div 10) @ [digit_char (n mod 10)])"

declare show_nat.simps [simp del]

definition show_int :: "int \<Rightarrow> string" where
  "show_int i = (if i < 0 then CHR ''-'' # show_nat (nat (- i)) else show_nat (nat i))"

text \<open>\<^verbatim>\<open>separator.join(parts)\<close>.\<close>

fun join :: "string \<Rightarrow> string list \<Rightarrow> string" where
  "join sep [] = []"
| "join sep [x] = x"
| "join sep (x # y # ys) = x @ sep @ join sep (y # ys)"

text \<open>
  A dictionary key is written as a string: a \<^verbatim>\<open>str\<close> as it is, \<^verbatim>\<open>True\<close>,
  \<^verbatim>\<open>False\<close> and \<^verbatim>\<open>None\<close> as \<^verbatim>\<open>true\<close>, \<^verbatim>\<open>false\<close> and \<^verbatim>\<open>null\<close>, an \<^verbatim>\<open>int\<close> by its
  digits. Any other key raises \<^verbatim>\<open>TypeError\<close> (\<^verbatim>\<open>default\<close> is not applied to keys).
\<close>

fun json_key :: "pyval \<Rightarrow> error + string" where
  "json_key (PyStr s) = Inr s"
| "json_key (PyBool b) = Inr (if b then ''true'' else ''false'')"
| "json_key PyNone = Inr ''null''"
| "json_key (PyInt i) = Inr (show_int i)"
| "json_key v = Inl TypeError"

text \<open>
  A list and a tuple are both written as an array. A value of another type goes through
  \<^verbatim>\<open>default=str\<close> and is written as the string of its printed form.
\<close>

fun json_dumps :: "pyval \<Rightarrow> error + string"
  and json_dumps_list :: "pyval list \<Rightarrow> error + string list"
  and json_dumps_items :: "(pyval \<times> pyval) list \<Rightarrow> error + string list"
where
  "json_dumps PyNone = Inr ''null''"
| "json_dumps (PyBool b) = Inr (if b then ''true'' else ''false'')"
| "json_dumps (PyInt i) = Inr (show_int i)"
| "json_dumps (PyStr s) = Inr (json_string s)"
| "json_dumps (PyOther s) = Inr (json_string s)"
| "json_dumps (PyTuple xs) =
     (case json_dumps_list xs of Inl e \<Rightarrow> Inl e | Inr parts \<Rightarrow> Inr (''['' @ join '', '' parts @ '']''))"
| "json_dumps (PyList xs) =
     (case json_dumps_list xs of Inl e \<Rightarrow> Inl e | Inr parts \<Rightarrow> Inr (''['' @ join '', '' parts @ '']''))"
| "json_dumps (PyDict kvs) =
     (case json_dumps_items kvs of Inl e \<Rightarrow> Inl e | Inr parts \<Rightarrow> Inr (''{'' @ join '', '' parts @ ''}''))"
| "json_dumps_list [] = Inr []"
| "json_dumps_list (x # xs) =
     (case json_dumps x of Inl e \<Rightarrow> Inl e
      | Inr part \<Rightarrow> (case json_dumps_list xs of Inl e \<Rightarrow> Inl e | Inr parts \<Rightarrow> Inr (part # parts)))"
| "json_dumps_items [] = Inr []"
| "json_dumps_items ((k, v) # kvs) =
     (case json_key k of Inl e \<Rightarrow> Inl e
      | Inr key \<Rightarrow>
          (case json_dumps v of Inl e \<Rightarrow> Inl e
           | Inr part \<Rightarrow>
               (case json_dumps_items kvs of Inl e \<Rightarrow> Inl e
                | Inr parts \<Rightarrow> Inr ((json_string key @ '': '' @ part) # parts))))"

section \<open>The row emitter and the batch driver\<close>

text \<open>
  A table as \<^verbatim>\<open>pyarrow.parquet\<close> reads it: its columns in schema order, each with its
  name and its cells (\<^verbatim>\<open>table[col_name][i]\<close>, a pyarrow scalar), and the number of rows.
\<close>

record table =
  columns :: "(string \<times> arrow_value list) list"
  num_rows :: nat

definition column_names :: "table \<Rightarrow> string list" where
  "column_names t = map fst (columns t)"

text \<open>What the program prints on standard output, one event for each \<^verbatim>\<open>print\<close>.\<close>

datatype event =
    Converting string string
  | Processed nat nat
  | Completed nat
  | NoFilesFound string
  | Found nat
  | Total nat nat

text \<open>
  The state outside the program: what reading the parquet file at a path gives (a table,
  or an exception), what \<^verbatim>\<open>sorted(input_dir.glob("*.parquet"))\<close> gives for a directory
  (the paths found, in order, each with its \<^verbatim>\<open>stem\<close>, the file name without its last
  suffix as \<^verbatim>\<open>pathlib\<close> computes it), the text of the files written, and the two output
  streams (standard error holds, for each reported failure, the file and the exception).
\<close>

record world =
  parquet :: "string \<Rightarrow> error + table"
  parquet_files :: "string \<Rightarrow> (string \<times> string) list"
  written :: "string \<Rightarrow> string option"
  stdout :: "event list"
  stderr :: "(string \<times> error) list"

text \<open>
  Lines 91-98, the loop over the columns that builds \<^verbatim>\<open>row_dict\<close> for row \<open>i\<close>. The
  lookup \<^verbatim>\<open>table[col_name]\<close> by name raises \<^verbatim>\<open>KeyError\<close> unless the schema has the name
  exactly once.
\<close>

fun row_loop ::
  "table \<Rightarrow> nat \<Rightarrow> string list \<Rightarrow> (pyval \<times> pyval) list \<Rightarrow> error + (pyval \<times> pyval) list" where
  "row_loop t i [] row_dict = Inr row_dict"
| "row_loop t i (col_name # rest) row_dict =
     (if count_list (column_names t) col_name \<noteq> 1 then Inl KeyError
      else
        (case map_of (columns t) col_name of
           None \<Rightarrow> Inl KeyError
         | Some col \<Rightarrow>
             (if i < length col then
                (case convert_arrow_value_to_python (col ! i) of Inl e \<Rightarrow> Inl e
                 | Inr python_value \<Rightarrow>
                     (case dict_setitem row_dict (PyStr col_name) python_value of Inl e \<Rightarrow> Inl e
                      | Inr row_dict' \<Rightarrow> row_loop t i rest row_dict'))
              else Inl IndexError)))"

text \<open>
  Lines 90-106, the loop over the rows: each row is serialised, written with a newline
  to the open file, and every 1000th row is reported. An exception leaves the file with
  the lines written so far.
\<close>

fun rows_loop :: "table \<Rightarrow> string \<Rightarrow> nat list \<Rightarrow> world \<Rightarrow> world \<times> (error + unit)" where
  "rows_loop t jsonl_file [] w = (w, Inr ())"
| "rows_loop t jsonl_file (i # is) w =
     (case row_loop t i (column_names t) [] of
        Inl e \<Rightarrow> (w, Inl e)
      | Inr row_dict \<Rightarrow>
          (case json_dumps (PyDict row_dict) of
             Inl e \<Rightarrow> (w, Inl e)
           | Inr json_line \<Rightarrow>
               (let f = (case written w jsonl_file of None \<Rightarrow> [] | Some text \<Rightarrow> text);
                    w1 = w\<lparr>written := (written w)(jsonl_file \<mapsto> f @ json_line @ [CHR 0x0A])\<rparr>;
                    w2 = (if (i + 1) mod 1000 = 0
                          then w1\<lparr>stdout := stdout w1 @ [Processed (i + 1) (num_rows t)]\<rparr>
                          else w1)
                in rows_loop t jsonl_file is w2)))"

text \<open>\<^verbatim>\<open>convert_parquet_to_jsonl\<close>, lines 71-109.\<close>

definition convert_parquet_to_jsonl :: "string \<Rightarrow> string \<Rightarrow> world \<Rightarrow> world \<times> (error + nat)" where
  "convert_parquet_to_jsonl parquet_file jsonl_file w =
     (let w1 = w\<lparr>stdout := stdout w @ [Converting parquet_file jsonl_file]\<rparr> in
      case parquet w1 parquet_file of
        Inl e \<Rightarrow> (w1, Inl e)
      | Inr t \<Rightarrow>
          (let w2 = w1\<lparr>written := (written w1)(jsonl_file \<mapsto> [])\<rparr> in
           case rows_loop t jsonl_file [0..<num_rows t] w2 of
             (w3, Inl e) \<Rightarrow> (w3, Inl e)
           | (w3, Inr u) \<Rightarrow>
               (w3\<lparr>stdout := stdout w3 @ [Completed (num_rows t)]\<rparr>, Inr (num_rows t))))"




section \<open>The converter on a store of objects\<close>

text \<open>
  The definitions above treat Python objects as values. To say what the converter does
  to the objects it is given, this section runs the same code on an explicit store.
  Lists and dictionaries are mutable and live in the store, at an address; \<^verbatim>\<open>None\<close>,
  numbers, strings and tuples are immutable and are carried as they are (a tuple may
  hold references). A reference to a list or a dictionary is never hashable, so the
  keys of a dictionary hold no reference and are kept as values. The store is the list
  of the objects allocated so far: the address of an object is its index, and a new
  object is appended.
\<close>

type_synonym addr = nat

datatype hval =
    HNone
  | HBool bool
  | HInt int
  | HStr string
  | HOther string
  | HTuple "hval list"
  | HRef addr

datatype hobj = HList "hval list" | HDict "(pyval \<times> hval) list"

type_synonym heap = "hobj list"

text \<open>
  The key a value is stored under: \<^verbatim>\<open>TypeError\<close> (\<open>None\<close> here) when the value is, or
  a tuple in it holds, a list or a dictionary.
\<close>

fun hkey :: "hval \<Rightarrow> pyval option"
  and hkeys :: "hval list \<Rightarrow> pyval list option"
where
  "hkey HNone = Some PyNone"
| "hkey (HBool b) = Some (PyBool b)"
| "hkey (HInt i) = Some (PyInt i)"
| "hkey (HStr s) = Some (PyStr s)"
| "hkey (HOther s) = Some (PyOther s)"
| "hkey (HTuple vs) = (case hkeys vs of None \<Rightarrow> None | Some ps \<Rightarrow> Some (PyTuple ps))"
| "hkey (HRef a) = None"
| "hkeys [] = Some []"
| "hkeys (v # vs) =
     (case hkey v of None \<Rightarrow> None
      | Some p \<Rightarrow> (case hkeys vs of None \<Rightarrow> None | Some ps \<Rightarrow> Some (p # ps)))"

text \<open>
  \<^verbatim>\<open>result[k] = v\<close> on the dictionary at address \<open>r\<close>: the object at \<open>r\<close> is replaced.
  (The converter calls it on the dictionary it has allocated; on a list the model
  raises \<^verbatim>\<open>TypeError\<close>.)
\<close>

definition hdict_setitem :: "heap \<Rightarrow> addr \<Rightarrow> hval \<Rightarrow> hval \<Rightarrow> error + heap" where
  "hdict_setitem h r k v =
     (case hkey k of
        None \<Rightarrow> Inl TypeError
      | Some key \<Rightarrow>
          (case h ! r of
             HDict d \<Rightarrow> Inr (h[r := HDict (dict_update d key v)])
           | HList xs \<Rightarrow> Inl TypeError))"

text \<open>
  \<^verbatim>\<open>to_pylist()\<close> and \<^verbatim>\<open>as_py()\<close> build fresh Python objects from the data of a pyarrow
  object: \<open>alloc_py\<close> allocates the objects of a value, innermost first.
\<close>

fun alloc_py :: "pyval \<Rightarrow> heap \<Rightarrow> hval \<times> heap"
  and alloc_py_list :: "pyval list \<Rightarrow> heap \<Rightarrow> hval list \<times> heap"
  and alloc_py_items :: "(pyval \<times> pyval) list \<Rightarrow> heap \<Rightarrow> (pyval \<times> hval) list \<times> heap"
where
  "alloc_py PyNone h = (HNone, h)"
| "alloc_py (PyBool b) h = (HBool b, h)"
| "alloc_py (PyInt i) h = (HInt i, h)"
| "alloc_py (PyStr s) h = (HStr s, h)"
| "alloc_py (PyOther s) h = (HOther s, h)"
| "alloc_py (PyTuple ps) h = (case alloc_py_list ps h of (vs, h') \<Rightarrow> (HTuple vs, h'))"
| "alloc_py (PyList ps) h =
     (case alloc_py_list ps h of (vs, h') \<Rightarrow> (HRef (length h'), h' @ [HList vs]))"
| "alloc_py (PyDict kps) h =
     (case alloc_py_items kps h of (kvs, h') \<Rightarrow> (HRef (length h'), h' @ [HDict kvs]))"
| "alloc_py_list [] h = ([], h)"
| "alloc_py_list (p # ps) h =
     (case alloc_py p h of (v, h1) \<Rightarrow>
        (case alloc_py_list ps h1 of (vs, h2) \<Rightarrow> (v # vs, h2)))"
| "alloc_py_items [] h = ([], h)"
| "alloc_py_items ((k, p) # kps) h =
     (case alloc_py p h of (v, h1) \<Rightarrow>
        (case alloc_py_items kps h1 of (kvs, h2) \<Rightarrow> ((k, v) # kvs, h2)))"

text \<open>
  Lines 22-23 and 60-68 on the store. The first argument is the number of calls the
  interpreter still allows (\<^verbatim>\<open>sys.getrecursionlimit()\<close> less the current depth): a list
  that contains itself makes the recursion run until \<^verbatim>\<open>RecursionError\<close>. A comprehension
  evaluates its items in order and yields a new object; a value that is neither
  \<^verbatim>\<open>None\<close>, a dictionary nor a list is returned as it is, the very object that was given
  (so is, in the model, a reference to an address the store does not have).
\<close>

fun hconvert :: "nat \<Rightarrow> hval \<Rightarrow> heap \<Rightarrow> (error + hval) \<times> heap"
  and hconvert_list :: "nat \<Rightarrow> hval list \<Rightarrow> heap \<Rightarrow> (error + hval list) \<times> heap"
  and hconvert_items ::
    "nat \<Rightarrow> (pyval \<times> hval) list \<Rightarrow> (pyval \<times> hval) list \<Rightarrow> heap
       \<Rightarrow> (error + (pyval \<times> hval) list) \<times> heap"
where
  "hconvert 0 v h = (Inl RecursionError, h)"
| "hconvert (Suc depth) HNone h = (Inr HNone, h)"
| "hconvert (Suc depth) (HRef a) h =
     (if a < length h then
        (case h ! a of
           HDict kvs \<Rightarrow>
             (case hconvert_items depth kvs [] h of
                (Inl e, h') \<Rightarrow> (Inl e, h')
              | (Inr d, h') \<Rightarrow> (Inr (HRef (length h')), h' @ [HDict d]))
         | HList xs \<Rightarrow>
             (case hconvert_list depth xs h of
                (Inl e, h') \<Rightarrow> (Inl e, h')
              | (Inr ys, h') \<Rightarrow> (Inr (HRef (length h')), h' @ [HList ys])))
      else (Inr (HRef a), h))"
| "hconvert (Suc depth) (HBool b) h = (Inr (HBool b), h)"
| "hconvert (Suc depth) (HInt i) h = (Inr (HInt i), h)"
| "hconvert (Suc depth) (HStr s) h = (Inr (HStr s), h)"
| "hconvert (Suc depth) (HOther s) h = (Inr (HOther s), h)"
| "hconvert (Suc depth) (HTuple vs) h = (Inr (HTuple vs), h)"
| "hconvert_list depth [] h = (Inr [], h)"
| "hconvert_list depth (x # xs) h =
     (case hconvert depth x h of
        (Inl e, h1) \<Rightarrow> (Inl e, h1)
      | (Inr y, h1) \<Rightarrow>
          (case hconvert_list depth xs h1 of
             (Inl e, h2) \<Rightarrow> (Inl e, h2)
           | (Inr ys, h2) \<Rightarrow> (Inr (y # ys), h2)))"
| "hconvert_items depth [] acc h = (Inr acc, h)"
| "hconvert_items depth ((k, v) # kvs) acc h =
     (case hconvert depth v h of
        (Inl e, h1) \<Rightarrow> (Inl e, h1)
      | (Inr v', h1) \<Rightarrow>
          (case dict_setitem acc k v' of
             Inl e \<Rightarrow> (Inl e, h1)
           | Inr acc' \<Rightarrow> hconvert_items depth kvs acc' h1))"

text \<open>
  The argument of the converter: a Python object of the store, or a pyarrow object,
  which is immutable and is given by its data as before.
\<close>

datatype hinput =
    HObj hval
  | HMapArray "pyval list" "pyval list"
  | HListArray "pyval list"
  | HLargeListArray "pyval list"
  | HStructArray "(string \<times> hinput) list"
  | HArray "pyval list"
  | HScalar pyval

text \<open>
  Lines 30-32 on the store: \<^verbatim>\<open>result\<close> is the address of the dictionary of line 27, and
  each assignment \<^verbatim>\<open>result[...] = ...\<close> writes to the object at that address.
\<close>

fun hmap_array_loop ::
  "nat \<Rightarrow> hval list \<Rightarrow> hval list \<Rightarrow> nat list \<Rightarrow> addr \<Rightarrow> heap \<Rightarrow> (error + unit) \<times> heap" where
  "hmap_array_loop depth keys items [] result h = (Inr (), h)"
| "hmap_array_loop depth keys items (i # is) result h =
     (if keys ! i \<noteq> HNone then
        (if i < length items then
           (case hconvert depth (items ! i) h of
              (Inl e, h1) \<Rightarrow> (Inl e, h1)
            | (Inr v, h1) \<Rightarrow>
                (case hconvert depth (keys ! i) h1 of
                   (Inl e, h2) \<Rightarrow> (Inl e, h2)
                 | (Inr k, h2) \<Rightarrow>
                     (case hdict_setitem h2 result k v of
                        Inl e \<Rightarrow> (Inl e, h2)
                      | Inr h3 \<Rightarrow> hmap_array_loop depth keys items is result h3)))
         else (Inl IndexError, h))
      else hmap_array_loop depth keys items is result h)"

text \<open>
  Lines 17-68 on the store. \<^verbatim>\<open>result = {}\<close> (lines 27 and 41) allocates the dictionary
  before the loop that fills it.
\<close>

fun hconvert_arrow :: "nat \<Rightarrow> hinput \<Rightarrow> heap \<Rightarrow> (error + hval) \<times> heap"
  and hstruct_array_loop ::
    "nat \<Rightarrow> string list \<Rightarrow> (string \<times> hinput) list \<Rightarrow> addr \<Rightarrow> heap
       \<Rightarrow> (error + unit) \<times> heap"
where
  "hconvert_arrow 0 x h = (Inl RecursionError, h)"
| "hconvert_arrow (Suc depth) (HObj v) h = hconvert (Suc depth) v h"
| "hconvert_arrow (Suc depth) (HMapArray ks is) h =
     (let result = length h;
          h0 = h @ [HDict []]
      in case alloc_py_list ks h0 of
           (keys, h1) \<Rightarrow>
             (case alloc_py_list is h1 of
                (items, h2) \<Rightarrow>
                  (case hmap_array_loop depth keys items [0..<length keys] result h2 of
                     (Inl e, h3) \<Rightarrow> (Inl e, h3)
                   | (Inr u, h3) \<Rightarrow> (Inr (HRef result), h3))))"
| "hconvert_arrow (Suc depth) (HListArray ps) h =
     (case alloc_py_list ps h of
        (xs, h1) \<Rightarrow>
          (case hconvert_list depth xs h1 of
             (Inl e, h2) \<Rightarrow> (Inl e, h2)
           | (Inr ys, h2) \<Rightarrow> (Inr (HRef (length h2)), h2 @ [HList ys])))"
| "hconvert_arrow (Suc depth) (HLargeListArray ps) h =
     (case alloc_py_list ps h of
        (xs, h1) \<Rightarrow>
          (case hconvert_list depth xs h1 of
             (Inl e, h2) \<Rightarrow> (Inl e, h2)
           | (Inr ys, h2) \<Rightarrow> (Inr (HRef (length h2)), h2 @ [HList ys])))"
| "hconvert_arrow (Suc depth) (HStructArray flds) h =
     (let result = length h;
          h0 = h @ [HDict []]
      in case hstruct_array_loop depth (map fst flds) flds result h0 of
           (Inl e, h1) \<Rightarrow> (Inl e, h1)
         | (Inr u, h1) \<Rightarrow> (Inr (HRef result), h1))"
| "hconvert_arrow (Suc depth) (HArray ps) h =
     (if length ps = 0 then (Inr HNone, h)
      else if length ps = 1 then
        (case alloc_py (ps ! 0) h of (x, h1) \<Rightarrow> hconvert depth x h1)
      else
        (case alloc_py_list ps h of
           (xs, h1) \<Rightarrow>
             (case hconvert_list depth xs h1 of
                (Inl e, h2) \<Rightarrow> (Inl e, h2)
              | (Inr ys, h2) \<Rightarrow> (Inr (HRef (length h2)), h2 @ [HList ys]))))"
| "hconvert_arrow (Suc depth) (HScalar p) h =
     (case alloc_py p h of (x, h1) \<Rightarrow> hconvert depth x h1)"
| "hstruct_array_loop depth names [] result h = (Inr (), h)"
| "hstruct_array_loop depth names ((name, field_value) # flds) result h =
     (if count_list names name \<noteq> 1 then (Inl KeyError, h)
      else if field_value \<noteq> HObj HNone then
        (case hconvert_arrow depth field_value h of
           (Inl e, h1) \<Rightarrow> (Inl e, h1)
         | (Inr v, h1) \<Rightarrow>
             (case hdict_setitem h1 result (HStr name) v of
                Inl e \<Rightarrow> (Inl e, h1)
              | Inr h2 \<Rightarrow> hstruct_array_loop depth names flds result h2))
      else hstruct_array_loop depth names flds result h)"

section \<open>Auxiliary notions\<close>

text \<open>
  The definitions of this section are not part of the program: they serve to state and
  prove its properties.

  \<open>dict_keys_ok\<close>: the keys of a dictionary are hashable and pairwise unequal, as they
  are in every dictionary Python builds. \<open>dict_stable\<close>: moreover the converter leaves
  every value as it is.
\<close>

definition dict_keys_ok :: "(pyval \<times> pyval) list \<Rightarrow> bool" where
  "dict_keys_ok d = (list_all hashable (map fst d) \<and> distinct (map key_norm (map fst d)))"

definition dict_stable :: "(pyval \<times> pyval) list \<Rightarrow> bool" where
  "dict_stable d = (dict_keys_ok d \<and> (\<forall>v \<in> snd ` set d. convert_py v = Inr v))"

text \<open>
  The loop of the map branch by recursion over the keys, the values being consumed in
  step; \<open>map_array_loop_upt\<close> below shows that it computes what the loop over the
  indices computes.
\<close>

fun map_pairs ::
  "pyval list \<Rightarrow> pyval list \<Rightarrow> (pyval \<times> pyval) list \<Rightarrow> error + (pyval \<times> pyval) list" where
  "map_pairs [] items result = Inr result"
| "map_pairs (k # ks) items result =
     (if k \<noteq> PyNone then
        (case items of [] \<Rightarrow> Inl IndexError
         | item # rest \<Rightarrow>
            (case convert_py item of Inl e \<Rightarrow> Inl e
             | Inr v \<Rightarrow>
                 (case convert_py k of Inl e \<Rightarrow> Inl e
                  | Inr k' \<Rightarrow>
                      (case dict_setitem result k' v of Inl e \<Rightarrow> Inl e
                       | Inr result' \<Rightarrow> map_pairs ks rest result'))))
      else map_pairs ks (tl items) result)"




text \<open>
  The inputs of the examples. A row cell is a pyarrow scalar, modelled by what its
  \<^verbatim>\<open>as_py()\<close> returns. For a scalar of a map column that is, as pyarrow documents it,
  the association list of the map: a list of \<^verbatim>\<open>(key, value)\<close> tuples in the order of the
  map (\<open>map_scalar_as_py\<close>). \<open>example_table\<close> has the columns \<^verbatim>\<open>id: int\<close> and
  \<^verbatim>\<open>tags: map<int, string>\<close> and the rows \<^verbatim>\<open>(1, {10: "x", 20: "y"})\<close> and \<^verbatim>\<open>(2, {})\<close>;
  \<open>example_world\<close> holds it as the only parquet file. \<open>batch_world\<close> is a directory
  with the three parquet files \<^verbatim>\<open>a.parquet\<close>, \<^verbatim>\<open>b.parquet\<close> and \<^verbatim>\<open>c.parquet\<close>: the first
  cannot be read, the second has one row, and the third has a cell whose map has two
  keys and one value.
\<close>

definition map_scalar_as_py :: "(pyval \<times> pyval) list \<Rightarrow> pyval" where
  "map_scalar_as_py entries = PyList (map (\<lambda>(k, v). PyTuple [k, v]) entries)"

definition example_table :: table where
  "example_table =
     \<lparr>columns =
        [(''id'', [Scalar (PyInt 1), Scalar (PyInt 2)]),
         (''tags'', [Scalar (map_scalar_as_py [(PyInt 10, PyStr ''x''), (PyInt 20, PyStr ''y'')]),
                    Scalar (map_scalar_as_py [])])],
      num_rows = 2\<rparr>"

definition example_world :: world where
  "example_world =
     \<lparr>parquet = (\<lambda>p. Inr example_table), parquet_files = (\<lambda>d. []),
      written = (\<lambda>p. None), stdout = [], stderr = []\<rparr>"


text \<open>
  For the store: \<open>agree_except R h h'\<close> says that \<open>h'\<close> holds every object of \<open>h\<close>,
  unchanged but for those at the addresses in \<open>R\<close>. \<open>den F h v p\<close> says that the value
  \<open>v\<close>, read in the store \<open>h\<close> without entering an address of \<open>F\<close>, is the Python value
  \<open>p\<close>; \<open>drel\<close> is \<open>den\<close> on the entries of a dictionary, \<open>inden\<close> and \<open>frel\<close> are \<open>den\<close>
  on the arguments of the converter and on the fields of a struct. \<open>out_rel R\<close> relates
  an outcome on the store to an outcome on values: the same exception, or results
  related by \<open>R\<close>; an outcome that ran into the recursion limit is related to any.
\<close>

definition agree_except :: "addr set \<Rightarrow> heap \<Rightarrow> heap \<Rightarrow> bool" where
  "agree_except R h h' = (length h \<le> length h' \<and> (\<forall>a<length h. a \<notin> R \<longrightarrow> h' ! a = h ! a))"

inductive den :: "addr set \<Rightarrow> heap \<Rightarrow> hval \<Rightarrow> pyval \<Rightarrow> bool" for F :: "addr set" and h :: heap where
  den_None: "den F h HNone PyNone"
| den_Bool: "den F h (HBool b) (PyBool b)"
| den_Int: "den F h (HInt i) (PyInt i)"
| den_Str: "den F h (HStr s) (PyStr s)"
| den_Other: "den F h (HOther s) (PyOther s)"
| den_Tuple: "list_all2 (den F h) vs ps \<Longrightarrow> den F h (HTuple vs) (PyTuple ps)"
| den_List: "a < length h \<Longrightarrow> a \<notin> F \<Longrightarrow> h ! a = HList vs \<Longrightarrow> list_all2 (den F h) vs ps
     \<Longrightarrow> den F h (HRef a) (PyList ps)"
| den_Dict: "a < length h \<Longrightarrow> a \<notin> F \<Longrightarrow> h ! a = HDict kvs \<Longrightarrow> map fst kvs = map fst kps
     \<Longrightarrow> list_all2 (den F h) (map snd kvs) (map snd kps)
     \<Longrightarrow> den F h (HRef a) (PyDict kps)"

definition drel :: "addr set \<Rightarrow> heap \<Rightarrow> (pyval \<times> hval) list \<Rightarrow> (pyval \<times> pyval) list \<Rightarrow> bool" where
  "drel F h d dp = (map fst d = map fst dp \<and> list_all2 (den F h) (map snd d) (map snd dp))"

inductive inden :: "addr set \<Rightarrow> heap \<Rightarrow> hinput \<Rightarrow> arrow_value \<Rightarrow> bool"
  for F :: "addr set" and h :: heap where
  inden_Obj: "den F h v p \<Longrightarrow> inden F h (HObj v) (Obj p)"
| inden_Map: "inden F h (HMapArray ks is) (MapArray ks is)"
| inden_List: "inden F h (HListArray ps) (ListArray ps)"
| inden_LargeList: "inden F h (HLargeListArray ps) (LargeListArray ps)"
| inden_Struct: "map fst flds = map fst pflds \<Longrightarrow>
     list_all2 (inden F h) (map snd flds) (map snd pflds) \<Longrightarrow>
     inden F h (HStructArray flds) (StructArray pflds)"
| inden_Array: "inden F h (HArray ps) (Array ps)"
| inden_Scalar: "inden F h (HScalar p) (Scalar p)"

definition frel :: "addr set \<Rightarrow> heap \<Rightarrow> (string \<times> hinput) list \<Rightarrow> (string \<times> arrow_value) list \<Rightarrow> bool" where
  "frel F h flds pflds =
     (map fst flds = map fst pflds \<and> list_all2 (inden F h) (map snd flds) (map snd pflds))"

definition out_rel :: "('a \<Rightarrow> 'b \<Rightarrow> bool) \<Rightarrow> error + 'a \<Rightarrow> error + 'b \<Rightarrow> bool" where
  "out_rel R res pres =
     (res = Inl RecursionError \<or>
      (case res of Inl e \<Rightarrow> pres = Inl e | Inr y \<Rightarrow> (\<exists>p. pres = Inr p \<and> R y p)))"

section \<open>Dictionaries\<close>

lemma py_eq_refl: "py_eq k k" by (simp add: py_eq_def)
lemma py_eq_sym: "py_eq a b \<Longrightarrow> py_eq b a" by (simp add: py_eq_def)
lemma py_eq_trans: "py_eq a b \<Longrightarrow> py_eq b c \<Longrightarrow> py_eq a c" by (simp add: py_eq_def)

lemma dict_get_update:
  "dict_get (dict_update d k v) k' = (if py_eq k k' then Some v else dict_get d k')"
  by (induction d) (auto simp: py_eq_def)

lemma map_fst_dict_update:
  "map fst (dict_update d k v) =
     (if dict_get d k = None then map fst d @ [k] else map fst d)"
  by (induction d) (auto split: if_splits)

lemma dict_get_None_iff: "dict_get d k = None \<longleftrightarrow> key_norm k \<notin> key_norm ` fst ` set d"
  by (induction d) (auto simp: py_eq_def split: if_splits)

lemma dict_keys_ok_update:
  assumes "dict_keys_ok d" "hashable k"
  shows "dict_keys_ok (dict_update d k v)"
proof (cases "dict_get d k = None")
  case True
  then have "key_norm k \<notin> set (map key_norm (map fst d))"
    by (simp add: dict_get_None_iff image_image)
  with assms True show ?thesis
    by (simp add: dict_keys_ok_def map_fst_dict_update)
next
  case False
  with assms show ?thesis
    by (auto simp: dict_keys_ok_def map_fst_dict_update)
qed

lemma convert_py_hashable: "hashable k \<Longrightarrow> convert_py k = Inr k"
  by (cases k) auto

lemma snd_dict_update: "snd ` set (dict_update d k v) \<subseteq> insert v (snd ` set d)"
  by (induction d) (force split: if_splits)+

lemma dict_update_append_fresh:
  "dict_get d k = None \<Longrightarrow> dict_update d k v = d @ [(k, v)]"
  by (induction d) (auto split: if_splits)

lemma dict_stable_update:
  "dict_stable d \<Longrightarrow> hashable k \<Longrightarrow> convert_py v = Inr v \<Longrightarrow> dict_stable (dict_update d k v)"
  using snd_dict_update[of d k v] by (fastforce simp: dict_stable_def dict_keys_ok_update)

lemma convert_py_items_stable:
  "dict_stable (acc @ d) \<Longrightarrow> convert_py_items d acc = Inr (acc @ d)"
proof (induction d arbitrary: acc)
  case Nil
  then show ?case by simp
next
  case (Cons kv d)
  obtain k v where kv: "kv = (k, v)" by (cases kv)
  from Cons.prems have st: "dict_stable ((acc @ [(k, v)]) @ d)" by (simp add: kv)
  from Cons.prems have v: "convert_py v = Inr v" and h: "hashable k"
    and fresh: "dict_get acc k = None"
    by (auto simp: kv dict_stable_def dict_keys_ok_def dict_get_None_iff image_image)
  show ?case
    using Cons.IH[OF st] v h fresh
    by (simp add: kv dict_setitem_def dict_update_append_fresh)
qed

lemma convert_py_idem_aux:
  "(\<forall>y. convert_py x = Inr y \<longrightarrow> convert_py y = Inr y)"
  "(\<forall>ys. convert_py_list xs = Inr ys \<longrightarrow> convert_py_list ys = Inr ys)"
  "(\<forall>d. convert_py_items kvs acc = Inr d \<longrightarrow> dict_stable acc \<longrightarrow> dict_stable d)"
proof (induction x and xs and kvs acc rule: convert_py_convert_py_list_convert_py_items.induct)
  case (2 kvs)
  show ?case
  proof (intro allI impI)
    fix y assume "convert_py (PyDict kvs) = Inr y"
    then obtain d where d: "convert_py_items kvs [] = Inr d" and y: "y = PyDict d"
      by (auto split: sum.splits)
    have "dict_stable []" by (simp add: dict_stable_def dict_keys_ok_def)
    with 2 d have "dict_stable d" by blast
    then have "convert_py_items d [] = Inr d"
      using convert_py_items_stable[of "[]" d] by simp
    then show "convert_py y = Inr y" by (simp add: y)
  qed
next
  case (3 xs)
  then show ?case by (auto split: sum.splits)
next
  case (10 x xs)
  then show ?case by (auto split: sum.splits)
next
  case (12 k v kvs acc)
  show ?case
  proof (intro allI impI)
    fix d assume run: "convert_py_items ((k, v) # kvs) acc = Inr d" and acc: "dict_stable acc"
    from run obtain v' acc' where v': "convert_py v = Inr v'"
      and s: "dict_setitem acc k v' = Inr acc'" and r: "convert_py_items kvs acc' = Inr d"
      by (auto split: sum.splits)
    from s have h: "hashable k" and acc': "acc' = dict_update acc k v'"
      by (auto simp: dict_setitem_def split: if_splits)
    from 12(1) v' have "convert_py v' = Inr v'" by blast
    with acc h have "dict_stable acc'" by (simp add: acc' dict_stable_update)
    with 12(2)[OF v' s] r show "dict_stable d" by blast
  qed
qed simp_all

section \<open>The map branch\<close>

lemma map_array_loop_upt:
  "n \<le> length keys \<Longrightarrow>
   map_array_loop keys items [n..<length keys] result =
   map_pairs (drop n keys) (drop n items) result"
proof (induction "length keys - n" arbitrary: n result)
  case 0
  then show ?case by simp
next
  case (Suc m)
  then have n: "n < length keys" by simp
  have upt: "[n..<length keys] = n # [Suc n..<length keys]"
    using n by (simp add: upt_conv_Cons)
  have dk: "drop n keys = keys ! n # drop (Suc n) keys"
    using n by (simp add: Cons_nth_drop_Suc)
  have IH: "\<And>r. map_array_loop keys items [Suc n..<length keys] r =
      map_pairs (drop (Suc n) keys) (drop (Suc n) items) r"
    using Suc(1)[of "Suc n"] Suc(2) n by simp
  show ?case
  proof (cases "n < length items")
    case True
    then have di: "drop n items = items ! n # drop (Suc n) items"
      by (simp add: Cons_nth_drop_Suc)
    show ?thesis
      by (simp add: upt dk di IH True split: sum.splits)
  next
    case False
    then show ?thesis
      by (simp add: upt dk IH)
  qed
qed

lemma convert_map_array:
  "convert_arrow_value_to_python (MapArray keys items) =
     (case map_pairs keys items [] of Inl e \<Rightarrow> Inl e | Inr d \<Rightarrow> Inr (PyDict d))"
  using map_array_loop_upt[of 0 keys items "[]"] by simp

lemma convert_py_errors:
  "(\<forall>e. convert_py x = Inl e \<longrightarrow> e = TypeError)"
  "(\<forall>e. convert_py_list xs = Inl e \<longrightarrow> e = TypeError)"
  "(\<forall>e. convert_py_items kvs acc = Inl e \<longrightarrow> e = TypeError)"
  by (induction x and xs and kvs acc rule: convert_py_convert_py_list_convert_py_items.induct)
     (auto simp: dict_setitem_def split: sum.splits if_splits)

lemma convert_py_hashable_result:
  "convert_py x = Inr y \<Longrightarrow> hashable y \<Longrightarrow> y = x"
  by (cases x) (auto split: sum.splits)

lemma convert_py_None_iff: "convert_py x = Inr PyNone \<longleftrightarrow> x = PyNone"
  by (cases x) (auto split: sum.splits)

lemma map_pairs_Nil_items:
  "map_pairs ks [] r = (if list_all (\<lambda>k. k = PyNone) ks then Inr r else Inl IndexError)"
  by (induction ks) auto

lemma map_pairs_append:
  "map_pairs (ks1 @ ks2) items r =
     (case map_pairs ks1 items r of Inl e \<Rightarrow> Inl e
      | Inr r' \<Rightarrow> map_pairs ks2 (drop (length ks1) items) r')"
proof (induction ks1 arbitrary: items r)
  case Nil
  then show ?case by simp
next
  case (Cons k ks1)
  show ?case
  proof (cases items)
    case Nil
    then show ?thesis
      by (auto simp: map_pairs_Nil_items Cons.IH)
  next
    case (Cons item rest)
    then show ?thesis
      by (simp add: Cons.IH split: sum.splits)
  qed
qed

lemma map_pairs_stable:
  "map_pairs ks items r = Inr d \<Longrightarrow> dict_stable r \<Longrightarrow> dict_stable d"
proof (induction ks arbitrary: items r)
  case Nil
  then show ?case by simp
next
  case (Cons k ks)
  show ?case
  proof (cases "k = PyNone")
    case True
    with Cons show ?thesis by simp
  next
    case False
    with Cons.prems obtain item rest v k' where items: "items = item # rest"
      and v: "convert_py item = Inr v" and k': "convert_py k = Inr k'"
      and h: "hashable k'" and run: "map_pairs ks rest (dict_update r k' v) = Inr d"
      by (auto simp: dict_setitem_def split: list.splits sum.splits if_splits)
    from v have "convert_py v = Inr v" using convert_py_idem_aux(1) by blast
    with Cons.prems(2) h have "dict_stable (dict_update r k' v)"
      by (simp add: dict_stable_update)
    with Cons.IH run show ?thesis by blast
  qed
qed

lemma map_pairs_errors:
  "map_pairs ks items r = Inl e \<Longrightarrow> e = IndexError \<or> e = TypeError"
proof (induction ks arbitrary: items r)
  case Nil
  then show ?case by simp
next
  case (Cons k ks)
  then show ?case
    using convert_py_errors(1)
    by (fastforce simp: dict_setitem_def split: list.splits sum.splits if_splits)
qed

lemma map_pairs_keys:
  "map_pairs ks items r = Inr d \<Longrightarrow>
     set (map fst d) \<subseteq> set (map fst r) \<union> (set ks - {PyNone})"
proof (induction ks arbitrary: items r)
  case Nil
  then show ?case by simp
next
  case (Cons k ks)
  show ?case
  proof (cases "k = PyNone")
    case True
    with Cons.prems have "map_pairs ks (tl items) r = Inr d" by simp
    from Cons.IH[OF this] show ?thesis by auto
  next
    case False
    with Cons.prems obtain item rest v k' where items: "items = item # rest"
      and v: "convert_py item = Inr v" and k': "convert_py k = Inr k'"
      and h: "hashable k'" and run: "map_pairs ks rest (dict_update r k' v) = Inr d"
      by (auto simp: dict_setitem_def split: list.splits sum.splits if_splits)
    from k' h have kk: "k' = k" by (rule convert_py_hashable_result)
    have "set (map fst (dict_update r k v)) \<subseteq> insert k (set (map fst r))"
      by (auto simp: map_fst_dict_update)
    with Cons.IH[OF run] False show ?thesis
      unfolding kk by auto
  qed
qed

lemma map_pairs_present:
  "map_pairs ks items r = Inr d \<Longrightarrow>
     (dict_get r k \<noteq> None \<or> (k \<in> set ks \<and> k \<noteq> PyNone)) \<Longrightarrow> dict_get d k \<noteq> None"
proof (induction ks arbitrary: items r)
  case Nil
  then show ?case by simp
next
  case (Cons k0 ks)
  show ?case
  proof (cases "k0 = PyNone")
    case True
    with Cons.prems have "map_pairs ks (tl items) r = Inr d" by simp
    from Cons.IH[OF this] Cons.prems(2) True show ?thesis by auto
  next
    case False
    with Cons.prems obtain item rest v k' where items: "items = item # rest"
      and v: "convert_py item = Inr v" and k': "convert_py k0 = Inr k'"
      and h: "hashable k'" and run: "map_pairs ks rest (dict_update r k' v) = Inr d"
      by (auto simp: dict_setitem_def split: list.splits sum.splits if_splits)
    from k' h have kk: "k' = k0" by (rule convert_py_hashable_result)
    have "dict_get (dict_update r k0 v) k \<noteq> None \<or> (k \<in> set ks \<and> k \<noteq> PyNone)"
      using Cons.prems(2) by (auto simp: dict_get_update py_eq_refl)
    with Cons.IH[OF run[unfolded kk]] show ?thesis by blast
  qed
qed

lemma map_pairs_unaffected:
  "map_pairs ks items r = Inr d \<Longrightarrow>
     list_all (\<lambda>k'. k' = PyNone \<or> \<not> py_eq k' k) ks \<Longrightarrow> dict_get d k = dict_get r k"
proof (induction ks arbitrary: items r)
  case Nil
  then show ?case by simp
next
  case (Cons k0 ks)
  show ?case
  proof (cases "k0 = PyNone")
    case True
    with Cons.prems have "map_pairs ks (tl items) r = Inr d" by simp
    from Cons.IH[OF this] Cons.prems(2) show ?thesis by simp
  next
    case False
    with Cons.prems obtain item rest v k' where items: "items = item # rest"
      and v: "convert_py item = Inr v" and k': "convert_py k0 = Inr k'"
      and h: "hashable k'" and run: "map_pairs ks rest (dict_update r k' v) = Inr d"
      by (auto simp: dict_setitem_def split: list.splits sum.splits if_splits)
    from k' h have kk: "k' = k0" by (rule convert_py_hashable_result)
    from Cons.prems(2) False have "\<not> py_eq k0 k" and rest: "list_all (\<lambda>k'. k' = PyNone \<or> \<not> py_eq k' k) ks"
      by auto
    with Cons.IH[OF run[unfolded kk] rest] show ?thesis
      by (simp add: dict_get_update)
  qed
qed

lemma map_pairs_skip_None:
  "length ks1 = length vs1 \<Longrightarrow>
     map_pairs (ks1 @ PyNone # ks2) (vs1 @ v # vs2) r = map_pairs (ks1 @ ks2) (vs1 @ vs2) r"
  by (induction ks1 vs1 arbitrary: r rule: list_induct2) (auto split: sum.splits)

lemma map_pairs_take:
  "length ks \<le> length items \<Longrightarrow> map_pairs ks items r = map_pairs ks (take (length ks) items) r"
proof (induction ks arbitrary: items r)
  case Nil
  then show ?case by simp
next
  case (Cons k ks)
  then obtain item rest where items: "items = item # rest" by (cases items) auto
  with Cons.prems have "length ks \<le> length rest" by simp
  from Cons.IH[OF this] show ?case
    by (simp add: items split: sum.splits)
qed

section \<open>Fixed points of the converter\<close>

lemma dict_stable_Nil: "dict_stable []"
  by (simp add: dict_stable_def dict_keys_ok_def)

lemma convert_py_stable_dict: "dict_stable d \<Longrightarrow> convert_py (PyDict d) = Inr (PyDict d)"
  using convert_py_items_stable[of "[]" d] by simp

lemma convert_Array_many:
  "1 < length xs \<Longrightarrow> convert_arrow_value_to_python (Array xs) =
     (case convert_py_list xs of Inl e \<Rightarrow> Inl e | Inr ys \<Rightarrow> Inr (PyList ys))"
  by (cases xs) auto

lemma convert_arrow_stable:
  "(\<forall>r. convert_arrow_value_to_python v = Inr r \<longrightarrow> convert_py r = Inr r)"
  "(\<forall>d. struct_array_loop names flds result = Inr d \<longrightarrow> dict_stable result \<longrightarrow> dict_stable d)"
proof (induction v and names flds result rule: convert_arrow_value_to_python_struct_array_loop.induct)
  case (1 v)
  then show ?case using convert_py_idem_aux(1) by simp
next
  case (2 keys items)
  show ?case
  proof (intro allI impI)
    fix r assume "convert_arrow_value_to_python (MapArray keys items) = Inr r"
    then obtain d where d: "map_pairs keys items [] = Inr d" and r: "r = PyDict d"
      unfolding convert_map_array by (auto split: sum.splits)
    from map_pairs_stable[OF d dict_stable_Nil] show "convert_py r = Inr r"
      by (simp only: r convert_py_stable_dict)
  qed
next
  case (3 xs)
  then show ?case using convert_py_idem_aux(2) by (auto split: sum.splits)
next
  case (4 xs)
  then show ?case using convert_py_idem_aux(2) by (auto split: sum.splits)
next
  case (5 flds)
  show ?case
  proof (intro allI impI)
    fix r assume "convert_arrow_value_to_python (StructArray flds) = Inr r"
    then obtain d where d: "struct_array_loop (map fst flds) flds [] = Inr d" and r: "r = PyDict d"
      by (auto split: sum.splits)
    from 5 d dict_stable_Nil have "dict_stable d" by blast
    then show "convert_py r = Inr r" by (simp only: r convert_py_stable_dict)
  qed
next
  case (6 xs)
  show ?case
  proof (intro allI impI)
    fix r assume run: "convert_arrow_value_to_python (Array xs) = Inr r"
    consider "length xs = 0" | "length xs = 1" | "1 < length xs" by linarith
    then show "convert_py r = Inr r"
    proof cases
      case 1
      with run show ?thesis by auto
    next
      case 2
      with run show ?thesis using convert_py_idem_aux(1) by auto
    next
      case 3
      from run show ?thesis
        unfolding convert_Array_many[OF 3] using convert_py_idem_aux(2)
        by (auto split: sum.splits)
    qed
  qed
next
  case (7 v)
  then show ?case using convert_py_idem_aux(1) by simp
next
  case (8 names result)
  then show ?case by simp
next
  case (9 names name field_value flds result)
  show ?case
  proof (intro allI impI)
    fix d assume run: "struct_array_loop names ((name, field_value) # flds) result = Inr d"
      and st: "dict_stable result"
    from run have c: "\<not> count_list names name \<noteq> 1" by (auto split: if_splits)
    show "dict_stable d"
    proof (cases "field_value = Obj PyNone")
      case True
      with run c 9(3) st show ?thesis by simp
    next
      case False
      with run c obtain v result' where v: "convert_arrow_value_to_python field_value = Inr v"
        and s: "dict_setitem result (PyStr name) v = Inr result'"
        and rest: "struct_array_loop names flds result' = Inr d"
        by (auto split: sum.splits)
      from 9(1)[OF c False] v have "convert_py v = Inr v" by blast
      with st s have "dict_stable result'"
        by (auto simp: dict_setitem_def dict_stable_update)
      with 9(2)[OF c False v s] rest show ?thesis by blast
    qed
  qed
qed

section \<open>The value stored under a key of a map\<close>

lemma map_pairs_last_key:
  assumes run: "map_pairs keys items [] = Inr d"
    and i: "i < length keys" and k: "keys ! i \<noteq> PyNone"
    and last: "\<forall>j. i < j \<and> j < length keys \<longrightarrow> \<not> py_eq (keys ! j) (keys ! i)"
  shows "i < length items \<and> (\<exists>v. convert_py (items ! i) = Inr v \<and> dict_get d (keys ! i) = Some v)"
proof -
  let ?k = "keys ! i"
  have split: "keys = take i keys @ (?k # drop (Suc i) keys)"
    using i by (simp add: id_take_nth_drop[symmetric])
  have len: "length (take i keys) = i" using i by simp
  from run obtain r1 where r1: "map_pairs (take i keys) items [] = Inr r1"
    and rest: "map_pairs (?k # drop (Suc i) keys) (drop i items) r1 = Inr d"
    using map_pairs_append[of "take i keys" "?k # drop (Suc i) keys" items "[]"] len
    unfolding split[symmetric] by (auto split: sum.splits)
  from rest k obtain item more v k' where di: "drop i items = item # more"
    and v: "convert_py item = Inr v" and k': "convert_py ?k = Inr k'" and h: "hashable k'"
    and run2: "map_pairs (drop (Suc i) keys) more (dict_update r1 k' v) = Inr d"
    by (auto simp: dict_setitem_def split: list.splits sum.splits if_splits)
  from di have ilen: "i < length items"
    by (metis drop_eq_Nil list.distinct(1) not_le)
  with di have item: "item = items ! i"
    by (metis Cons_nth_drop_Suc list.inject)
  from k' h have kk: "k' = ?k" by (rule convert_py_hashable_result)
  have "list_all (\<lambda>k'. k' = PyNone \<or> \<not> py_eq k' ?k) (drop (Suc i) keys)"
    unfolding list_all_length using last by simp
  from map_pairs_unaffected[OF run2 this]
  have "dict_get d ?k = Some v"
    by (simp add: kk dict_get_update py_eq_refl)
  with ilen v item show ?thesis by blast
qed

lemma map_value_at_last_key:
  assumes "convert_arrow_value_to_python (MapArray keys items) = Inr r"
    and "i < length keys" and "keys ! i \<noteq> PyNone"
    and "\<forall>j. i < j \<and> j < length keys \<longrightarrow> \<not> py_eq (keys ! j) (keys ! i)"
  shows "\<exists>d v. r = PyDict d \<and> distinct (map key_norm (map fst d)) \<and> i < length items \<and>
           convert_py (items ! i) = Inr v \<and> dict_get d (keys ! i) = Some v"
proof -
  from assms(1) obtain d where d: "map_pairs keys items [] = Inr d" and r: "r = PyDict d"
    unfolding convert_map_array by (auto split: sum.splits)
  from map_pairs_stable[OF d dict_stable_Nil] have "distinct (map key_norm (map fst d))"
    by (simp add: dict_stable_def dict_keys_ok_def)
  with map_pairs_last_key[OF d assms(2,3,4)] r show ?thesis by blast
qed

section \<open>Lists and structs\<close>

lemma convert_py_list_iff:
  "convert_py_list xs = Inr ys \<longleftrightarrow> list_all2 (\<lambda>x y. convert_py x = Inr y) xs ys"
proof (induction xs arbitrary: ys)
  case Nil
  then show ?case by auto
next
  case (Cons x xs)
  show ?case
    by (cases ys) (auto simp: Cons.IH[symmetric] split: sum.splits)
qed

lemma convert_py_items_distinct:
  "convert_py_items kvs acc = Inr d \<Longrightarrow> distinct (map key_norm (map fst (acc @ kvs))) \<Longrightarrow>
     \<exists>new. d = acc @ new \<and>
       list_all2 (\<lambda>(k, v) (k', v'). k' = k \<and> convert_py v = Inr v') kvs new"
proof (induction kvs arbitrary: acc)
  case Nil
  then show ?case by simp
next
  case (Cons kv kvs)
  obtain k v where kv: "kv = (k, v)" by (cases kv)
  from Cons.prems(1) obtain v' where v': "convert_py v = Inr v'" and h: "hashable k"
    and run: "convert_py_items kvs (dict_update acc k v') = Inr d"
    by (auto simp: kv dict_setitem_def split: sum.splits if_splits)
  from Cons.prems(2) have "dict_get acc k = None"
    by (auto simp: kv dict_get_None_iff image_image)
  then have upd: "dict_update acc k v' = acc @ [(k, v')]" by (rule dict_update_append_fresh)
  from Cons.prems(2) have "distinct (map key_norm (map fst ((acc @ [(k, v')]) @ kvs)))"
    by (simp add: kv)
  from Cons.IH[OF run[unfolded upd] this] obtain new where
    "d = (acc @ [(k, v')]) @ new" "list_all2 (\<lambda>(k, v) (k', v'). k' = k \<and> convert_py v = Inr v') kvs new"
    by blast
  with v' show ?case
    by (intro exI[of _ "(k, v') # new"]) (simp add: kv)
qed

lemma dict_get_PyStr_None:
  "dict_get d (PyStr n) = None \<longleftrightarrow> PyStr n \<notin> fst ` set d"
proof -
  have "\<And>k. key_norm k = PyStr n \<longleftrightarrow> k = PyStr n"
  proof -
    fix k show "key_norm k = PyStr n \<longleftrightarrow> k = PyStr n" by (cases k) auto
  qed
  then show ?thesis
    by (auto simp: dict_get_None_iff image_iff) (metis fst_conv)+
qed

lemma distinct_count_list: "distinct xs \<longleftrightarrow> (\<forall>x \<in> set xs. count_list xs x = 1)"
proof (induction xs)
  case Nil
  then show ?case by simp
next
  case (Cons a xs)
  show ?case
  proof (cases "a \<in> set xs")
    case True
    then have "count_list xs a \<noteq> 0" by (simp add: count_list_0_iff)
    then have "count_list (a # xs) a \<noteq> 1" by simp
    with True show ?thesis by auto
  next
    case False
    then have "\<forall>x \<in> set xs. count_list (a # xs) x = count_list xs x" by auto
    with False Cons.IH show ?thesis by simp
  qed
qed

lemma struct_array_loop_names:
  "struct_array_loop names flds result = Inr d \<Longrightarrow> \<forall>n \<in> set (map fst flds). count_list names n = 1"
proof (induction flds arbitrary: result)
  case Nil
  then show ?case by simp
next
  case (Cons f flds)
  obtain name fv where f: "f = (name, fv)" by (cases f)
  from Cons.prems have c: "count_list names name = 1" by (auto simp: f split: if_splits)
  from Cons.prems c obtain result' where "struct_array_loop names flds result' = Inr d"
    by (auto simp: f split: if_splits sum.splits)
  from Cons.IH[OF this] c show ?case by (simp add: f)
qed

lemma convert_struct_distinct:
  assumes "convert_arrow_value_to_python (StructArray flds) = Inr r"
  shows "distinct (map fst flds)"
proof -
  from assms obtain d where "struct_array_loop (map fst flds) flds [] = Inr d"
    by (auto split: sum.splits)
  from struct_array_loop_names[OF this]
  have "\<forall>n \<in> set (map fst flds). count_list (map fst flds) n = 1" .
  then show ?thesis by (simp only: distinct_count_list)
qed

lemma struct_array_loop_iff:
  "distinct (map fst flds) \<Longrightarrow> \<forall>n \<in> set (map fst flds). count_list names n = 1 \<Longrightarrow>
   PyStr ` set (map fst flds) \<inter> fst ` set result = {} \<Longrightarrow>
   struct_array_loop names flds result = Inr d \<longleftrightarrow>
     (\<exists>new. d = result @ new \<and>
        list_all2 (\<lambda>(name, field_value) (k, v).
           k = PyStr name \<and> convert_arrow_value_to_python field_value = Inr v)
          (filter (\<lambda>(name, field_value). field_value \<noteq> Obj PyNone) flds) new)"
proof (induction flds arbitrary: result)
  case Nil
  then show ?case by auto
next
  case (Cons f flds)
  obtain name fv where f: "f = (name, fv)" by (cases f)
  from Cons.prems have dist: "distinct (map fst flds)" and nm: "name \<notin> set (map fst flds)"
    and fresh: "PyStr name \<notin> fst ` set result"
    and rest: "PyStr ` set (map fst flds) \<inter> fst ` set result = {}"
    and c: "count_list names name = 1"
    and cs: "\<forall>n \<in> set (map fst flds). count_list names n = 1"
    by (auto simp: f)
  show ?case
  proof (cases "fv = Obj PyNone")
    case True
    then show ?thesis
      using Cons.IH[OF dist cs rest] c by (simp add: f)
  next
    case False
    show ?thesis
    proof (cases "convert_arrow_value_to_python fv")
      case (Inl e)
      with False c show ?thesis
        by (auto simp: f list_all2_Cons1)
    next
      case (Inr v)
      have upd: "dict_update result (PyStr name) v = result @ [(PyStr name, v)]"
        using fresh by (simp add: dict_update_append_fresh dict_get_PyStr_None)
      have rest': "PyStr ` set (map fst flds) \<inter> fst ` set (result @ [(PyStr name, v)]) = {}"
        using rest nm by auto
      show ?thesis
        using False Inr c Cons.IH[OF dist cs rest']
        by (auto simp: f dict_setitem_def upd list_all2_Cons1)
    qed
  qed
qed

lemma convert_struct_iff:
  "distinct (map fst flds) \<Longrightarrow>
   convert_arrow_value_to_python (StructArray flds) = Inr r \<longleftrightarrow>
     (\<exists>d. r = PyDict d \<and>
        list_all2 (\<lambda>(name, field_value) (k, v).
           k = PyStr name \<and> convert_arrow_value_to_python field_value = Inr v)
          (filter (\<lambda>(name, field_value). field_value \<noteq> Obj PyNone) flds) d)"
proof -
  assume dist: "distinct (map fst flds)"
  then have "\<forall>n \<in> set (map fst flds). count_list (map fst flds) n = 1"
    by (simp only: distinct_count_list)
  with dist have loop: "\<And>d. struct_array_loop (map fst flds) flds [] = Inr d \<longleftrightarrow>
      list_all2 (\<lambda>(name, field_value) (k, v).
           k = PyStr name \<and> convert_arrow_value_to_python field_value = Inr v)
          (filter (\<lambda>(name, field_value). field_value \<noteq> Obj PyNone) flds) d"
    using struct_array_loop_iff[of flds "map fst flds" "[]"] by simp
  show ?thesis
  proof (cases "struct_array_loop (map fst flds) flds []")
    case (Inl e)
    with loop show ?thesis by auto
  next
    case (Inr d)
    with loop[of d] show ?thesis by (auto simp: loop[symmetric])
  qed
qed

lemma dict_get_member:
  "distinct (map key_norm (map fst d)) \<Longrightarrow> (k, v) \<in> set d \<Longrightarrow> dict_get d k = Some v"
proof (induction d)
  case Nil
  then show ?case by simp
next
  case (Cons kv d)
  obtain k0 v0 where kv: "kv = (k0, v0)" by (cases kv)
  show ?case
  proof (cases "(k, v) \<in> set d")
    case True
    then have "key_norm k \<in> set (map key_norm (map fst d))" by force
    moreover have "key_norm k0 \<notin> set (map key_norm (map fst d))"
      using Cons.prems(1) by (simp add: kv)
    ultimately have "key_norm k0 \<noteq> key_norm k" by metis
    with Cons.IH True Cons.prems(1) show ?thesis by (simp add: kv py_eq_def)
  next
    case False
    with Cons.prems(2) have "k = k0" "v = v0" by (auto simp: kv)
    then show ?thesis by (simp add: kv py_eq_refl)
  qed
qed

lemma list_all2_None_preserved:
  "list_all2 (\<lambda>x y. convert_py x = Inr y) xs ys \<Longrightarrow>
     length ys = length xs \<and> (\<forall>i<length xs. xs ! i = PyNone \<longrightarrow> ys ! i = PyNone)"
  by (auto simp: list_all2_conv_all_nth)

lemma map_pairs_needs_item:
  assumes "map_pairs keys items r0 = Inr d" "i < length keys" "keys ! i \<noteq> PyNone"
  shows "i < length items"
  using assms
proof (induction keys arbitrary: items r0 i)
  case Nil
  then show ?case by simp
next
  case (Cons k ks)
  show ?case
  proof (cases i)
    case 0
    with Cons.prems show ?thesis by (cases items) auto
  next
    case (Suc m)
    show ?thesis
    proof (cases "k = PyNone")
      case True
      with Cons.prems Suc have "map_pairs ks (tl items) r0 = Inr d" "m < length ks" "ks ! m \<noteq> PyNone"
        by auto
      from Cons.IH[OF this] Suc show ?thesis by (cases items) auto
    next
      case False
      with Cons.prems(1) obtain item rest r1 where items: "items = item # rest"
        and run: "map_pairs ks rest r1 = Inr d"
        by (auto split: list.splits sum.splits)
      from Cons.prems Suc have "m < length ks" "ks ! m \<noteq> PyNone" by auto
      from Cons.IH[OF run this] Suc items show ?thesis by simp
    qed
  qed
qed

lemma convert_dict_distinct:
  assumes "convert_arrow_value_to_python (Obj (PyDict kvs)) = Inr r"
    and "distinct (map key_norm (map fst kvs))"
  shows "\<exists>d. r = PyDict d \<and> map fst d = map fst kvs \<and>
           (\<forall>i<length kvs. snd (kvs ! i) = PyNone \<longrightarrow> snd (d ! i) = PyNone)"
proof -
  from assms(1) obtain d where d: "convert_py_items kvs [] = Inr d" and r: "r = PyDict d"
    by (auto split: sum.splits)
  from convert_py_items_distinct[OF d] assms(2)
  have all: "list_all2 (\<lambda>(k, v) (k', v'). k' = k \<and> convert_py v = Inr v') kvs d"
    by simp
  then have len: "length kvs = length d" by (rule list_all2_lengthD)
  have nth: "\<And>i. i < length kvs \<Longrightarrow> fst (d ! i) = fst (kvs ! i) \<and>
      convert_py (snd (kvs ! i)) = Inr (snd (d ! i))"
  proof -
    fix i assume "i < length kvs"
    with all have "(\<lambda>(k, v) (k', v'). k' = k \<and> convert_py v = Inr v') (kvs ! i) (d ! i)"
      by (simp add: list_all2_conv_all_nth)
    then show "fst (d ! i) = fst (kvs ! i) \<and> convert_py (snd (kvs ! i)) = Inr (snd (d ! i))"
      by (cases "kvs ! i"; cases "d ! i") simp
  qed
  have "map fst d = map fst kvs"
    using len nth by (intro nth_equalityI) simp_all
  moreover have "\<forall>i<length kvs. snd (kvs ! i) = PyNone \<longrightarrow> snd (d ! i) = PyNone"
    using nth by fastforce
  ultimately show ?thesis using r by blast
qed

lemma convert_struct_entries:
  assumes run: "convert_arrow_value_to_python (StructArray flds) = Inr r"
    and arrays: "\<forall>field_value \<in> snd ` set flds. field_value \<noteq> Obj PyNone"
  shows "\<exists>d. r = PyDict d \<and>
           list_all2 (\<lambda>(name, field_value) (k, v).
              k = PyStr name \<and> convert_arrow_value_to_python field_value = Inr v) flds d \<and>
           map fst d = map (\<lambda>(name, field_value). PyStr name) flds \<and>
           (\<forall>name field_value v. (name, field_value) \<in> set flds \<and>
               convert_arrow_value_to_python field_value = Inr v \<longrightarrow>
               dict_get d (PyStr name) = Some v)"
proof -
  from arrays have pres: "filter (\<lambda>(name, field_value). field_value \<noteq> Obj PyNone) flds = flds"
    by (auto simp: filter_id_conv)
  from run have names: "distinct (map fst flds)" by (rule convert_struct_distinct)
  from run obtain d where r: "r = PyDict d"
    and all: "list_all2 (\<lambda>(name, field_value) (k, v).
           k = PyStr name \<and> convert_arrow_value_to_python field_value = Inr v) flds d"
    using convert_struct_iff[OF names, of r] unfolding pres by blast
  from all have len: "length flds = length d" by (rule list_all2_lengthD)
  have nth: "\<And>i. i < length flds \<Longrightarrow>
      d ! i = (PyStr (fst (flds ! i)), snd (d ! i)) \<and>
      convert_arrow_value_to_python (snd (flds ! i)) = Inr (snd (d ! i))"
  proof -
    fix i assume "i < length flds"
    with all have "(\<lambda>(name, field_value) (k, v).
           k = PyStr name \<and> convert_arrow_value_to_python field_value = Inr v) (flds ! i) (d ! i)"
      by (simp add: list_all2_conv_all_nth)
    then show "d ! i = (PyStr (fst (flds ! i)), snd (d ! i)) \<and>
      convert_arrow_value_to_python (snd (flds ! i)) = Inr (snd (d ! i))"
      by (cases "flds ! i"; cases "d ! i") simp
  qed
  have keys: "map fst d = map (\<lambda>(name, field_value). PyStr name) flds"
  proof (intro nth_equalityI)
    show "length (map fst d) = length (map (\<lambda>(name, field_value). PyStr name) flds)"
      using len by simp
  next
    fix i assume "i < length (map fst d)"
    then have i: "i < length flds" using len by simp
    from nth[OF i] have "fst (d ! i) = PyStr (fst (flds ! i))" by (metis fst_conv)
    with i len show "map fst d ! i = map (\<lambda>(name, field_value). PyStr name) flds ! i"
      by (simp add: case_prod_unfold)
  qed
  from run have "convert_py r = Inr r" using convert_arrow_stable(1) by blast
  then have "convert_py_items d [] = Inr d" by (auto simp: r split: sum.splits)
  from convert_py_idem_aux(3)[of d "[]"] this dict_stable_Nil have "dict_stable d" by blast
  then have dist: "distinct (map key_norm (map fst d))"
    by (simp add: dict_stable_def dict_keys_ok_def)
  have vals: "\<forall>name field_value v. (name, field_value) \<in> set flds \<and>
               convert_arrow_value_to_python field_value = Inr v \<longrightarrow>
               dict_get d (PyStr name) = Some v"
  proof (intro allI impI)
    fix name field_value v
    assume h: "(name, field_value) \<in> set flds \<and>
               convert_arrow_value_to_python field_value = Inr v"
    then obtain i where i: "i < length flds" and at: "flds ! i = (name, field_value)"
      unfolding in_set_conv_nth by blast
    from h nth[OF i] at have "d ! i = (PyStr name, v)" by (metis Inr_inject fst_conv snd_conv)
    with i len have "(PyStr name, v) \<in> set d" by (metis nth_mem)
    from dict_get_member[OF dist this] show "dict_get d (PyStr name) = Some v" .
  qed
  from r all keys vals show ?thesis by blast
qed

lemma map_values_present:
  assumes "convert_arrow_value_to_python (MapArray keys items) = Inr r"
  shows "\<exists>d. r = PyDict d \<and> (\<forall>k \<in> set keys. k \<noteq> PyNone \<longrightarrow> dict_get d k \<noteq> None)"
proof -
  from assms obtain d where d: "map_pairs keys items [] = Inr d" and r: "r = PyDict d"
    unfolding convert_map_array by (auto split: sum.splits)
  have "\<forall>k \<in> set keys. k \<noteq> PyNone \<longrightarrow> dict_get d k \<noteq> None"
    using map_pairs_present[OF d] by blast
  with r show ?thesis by blast
qed

section \<open>The batch driver\<close>









section \<open>The store: what a run leaves unchanged\<close>

inductive_cases den_HNoneE: "den F h HNone p"
inductive_cases den_PyNoneE: "den F h v PyNone"
inductive_cases den_HRefE: "den F h (HRef a) p"
inductive_cases den_HTupleE: "den F h (HTuple vs) p"
inductive_cases den_HBoolE: "den F h (HBool b) p"
inductive_cases den_HIntE: "den F h (HInt i) p"
inductive_cases den_HStrE: "den F h (HStr s) p"
inductive_cases den_HOtherE: "den F h (HOther s) p"

lemma agree_except_refl: "agree_except R h h"
  by (simp add: agree_except_def)

lemma agree_except_trans:
  "agree_except R h h1 \<Longrightarrow> agree_except R h1 h2 \<Longrightarrow> agree_except R h h2"
  by (auto simp: agree_except_def)

lemma agree_except_mono: "agree_except R h h' \<Longrightarrow> R \<subseteq> R' \<Longrightarrow> agree_except R' h h'"
  by (auto simp: agree_except_def)

lemma agree_except_append: "agree_except R h (h @ ext)"
  by (simp add: agree_except_def nth_append)

lemma agree_except_update: "r \<in> R \<Longrightarrow> agree_except R h (h[r := x])"
  unfolding agree_except_def
proof (intro conjI allI impI)
  show "length h \<le> length (h[r := x])" by simp
next
  fix a assume "r \<in> R" "a < length h" "a \<notin> R"
  then have "a \<noteq> r" by blast
  then show "h[r := x] ! a = h ! a" by simp
qed

lemma agree_except_empty_take: "agree_except {} h h' \<longleftrightarrow> take (length h) h' = h"
  by (auto simp: agree_except_def list_eq_iff_nth_eq)

lemma den_transfer:
  "den F h v p \<Longrightarrow> agree_except R h h' \<Longrightarrow> R \<subseteq> F \<Longrightarrow> den F h' v p"
proof (induction rule: den.induct)
  case (den_Tuple vs ps)
  then have "list_all2 (den F h') vs ps"
    by (auto elim!: list_all2_mono)
  then show ?case by (rule den.den_Tuple)
next
  case (den_List a vs ps)
  then have l: "list_all2 (den F h') vs ps"
    by (auto elim!: list_all2_mono)
  from den_List have "a < length h'" "h' ! a = HList vs"
    by (auto simp: agree_except_def)
  with l den_List(2) show ?case by (auto intro: den.den_List)
next
  case (den_Dict a kvs kps)
  then have l: "list_all2 (den F h') (map snd kvs) (map snd kps)"
    by (auto elim!: list_all2_mono)
  from den_Dict have "a < length h'" "h' ! a = HDict kvs"
    by (auto simp: agree_except_def)
  with l den_Dict(2,4) show ?case by (auto intro: den.den_Dict)
qed (auto intro: den.intros)

lemma den_weaken:
  "den F h v p \<Longrightarrow> F' \<subseteq> F \<Longrightarrow> den F' h v p"
proof (induction rule: den.induct)
  case (den_Tuple vs ps)
  then have "list_all2 (den F' h) vs ps"
    by (auto elim!: list_all2_mono)
  then show ?case by (rule den.den_Tuple)
next
  case (den_List a vs ps)
  then have l: "list_all2 (den F' h) vs ps"
    by (auto elim!: list_all2_mono)
  with den_List show ?case by (auto intro: den.den_List)
next
  case (den_Dict a kvs kps)
  then have l: "list_all2 (den F' h) (map snd kvs) (map snd kps)"
    by (auto elim!: list_all2_mono)
  with den_Dict show ?case by (auto intro: den.den_Dict)
qed (auto intro: den.intros)

lemma den_forbid_fresh:
  "den F h v p \<Longrightarrow> \<forall>a\<in>G. length h \<le> a \<Longrightarrow> den (F \<union> G) h v p"
proof (induction rule: den.induct)
  case (den_Tuple vs ps)
  then have "list_all2 (den (F \<union> G) h) vs ps"
    by (auto elim!: list_all2_mono)
  then show ?case by (rule den.den_Tuple)
next
  case (den_List a vs ps)
  then have l: "list_all2 (den (F \<union> G) h) vs ps"
    by (auto elim!: list_all2_mono)
  from den_List have "a \<notin> F \<union> G" by auto
  with l den_List show ?case by (auto intro: den.den_List)
next
  case (den_Dict a kvs kps)
  then have l: "list_all2 (den (F \<union> G) h) (map snd kvs) (map snd kps)"
    by (auto elim!: list_all2_mono)
  from den_Dict have "a \<notin> F \<union> G" by auto
  with l den_Dict show ?case by (auto intro: den.den_Dict)
qed (auto intro: den.intros)

lemma den_hkey:
  "den F h v p \<Longrightarrow> hkey v = (if hashable p then Some p else None)"
proof (induction rule: den.induct)
  case (den_Tuple vs ps)
  then have "list_all2 (\<lambda>v p. hkey v = (if hashable p then Some p else None)) vs ps"
    by (auto elim!: list_all2_mono)
  then have "hkeys vs = (if list_all hashable ps then Some ps else None)"
    by (induction vs ps rule: list_all2_induct) auto
  then show ?case by simp
qed auto

lemma alloc_frame:
  "\<forall>v h'. alloc_py p h = (v, h') \<longrightarrow> agree_except {} h h'"
  "\<forall>vs h'. alloc_py_list ps h = (vs, h') \<longrightarrow> agree_except {} h h'"
  "\<forall>kvs h'. alloc_py_items kps h = (kvs, h') \<longrightarrow> agree_except {} h h'"
proof (induction p h and ps h and kps h rule: alloc_py_alloc_py_list_alloc_py_items.induct)
  case (7 ps h)
  then show ?case
    by (auto split: prod.splits intro: agree_except_trans agree_except_append)
next
  case (8 kps h)
  then show ?case
    by (auto split: prod.splits intro: agree_except_trans agree_except_append)
next
  case (10 p ps h)
  then show ?case
    by (auto split: prod.splits intro: agree_except_trans)
next
  case (12 k p kps h)
  then show ?case
    by (auto split: prod.splits intro: agree_except_trans)
qed (auto simp: agree_except_refl split: prod.splits)

lemma hconvert_frame:
  "\<forall>res h'. hconvert depth v h = (res, h') \<longrightarrow> agree_except {} h h'"
  "\<forall>res h'. hconvert_list depth xs h = (res, h') \<longrightarrow> agree_except {} h h'"
  "\<forall>res h'. hconvert_items depth kvs acc h = (res, h') \<longrightarrow> agree_except {} h h'"
proof (induction depth v h and depth xs h and depth kvs acc h
    rule: hconvert_hconvert_list_hconvert_items.induct)
  case (3 depth a h)
  show ?case
  proof (intro allI impI)
    fix res h' assume run: "hconvert (Suc depth) (HRef a) h = (res, h')"
    show "agree_except {} h h'"
    proof (cases "a < length h")
      case False
      with run show ?thesis by (simp add: agree_except_refl)
    next
      case True
      show ?thesis
      proof (cases "h ! a")
        case (HList xs)
        obtain r1 h1 where l: "hconvert_list depth xs h = (r1, h1)" by fastforce
        from 3(1)[OF True HList] l have "agree_except {} h h1" by blast
        with run True HList l show ?thesis
          by (cases r1) (auto intro: agree_except_trans agree_except_append)
      next
        case (HDict kvs)
        obtain r1 h1 where l: "hconvert_items depth kvs [] h = (r1, h1)" by fastforce
        from 3(2)[OF True HDict] l have "agree_except {} h h1" by blast
        with run True HDict l show ?thesis
          by (cases r1) (auto intro: agree_except_trans agree_except_append)
      qed
    qed
  qed
next
  case (10 depth x xs h)
  show ?case
  proof (intro allI impI)
    fix res h' assume run: "hconvert_list depth (x # xs) h = (res, h')"
    obtain r1 h1 where a: "hconvert depth x h = (r1, h1)" by fastforce
    from 10(1) a have f1: "agree_except {} h h1" by blast
    show "agree_except {} h h'"
    proof (cases r1)
      case (Inl e)
      with run a f1 show ?thesis by simp
    next
      case (Inr y)
      obtain r2 h2 where b: "hconvert_list depth xs h1 = (r2, h2)" by fastforce
      from 10(2)[OF a[symmetric, unfolded Inr] refl] b have "agree_except {} h1 h2"
        by blast
      with run a Inr b f1 show ?thesis
        by (cases r2) (auto intro: agree_except_trans)
    qed
  qed
next
  case (12 depth k v kvs acc h)
  show ?case
  proof (intro allI impI)
    fix res h' assume run: "hconvert_items depth ((k, v) # kvs) acc h = (res, h')"
    obtain r1 h1 where a: "hconvert depth v h = (r1, h1)" by fastforce
    from 12(1) a have f1: "agree_except {} h h1" by blast
    show "agree_except {} h h'"
    proof (cases r1)
      case (Inl e)
      with run a f1 show ?thesis by simp
    next
      case (Inr v')
      show ?thesis
      proof (cases "dict_setitem acc k v'")
        case (Inl e)
        with run a Inr f1 show ?thesis by simp
      next
        case (Inr acc')
        from 12(2)[OF a[symmetric, unfolded \<open>r1 = Inr v'\<close>] refl Inr] run a \<open>r1 = Inr v'\<close> Inr
        have "agree_except {} h1 h'" by simp
        with f1 show ?thesis by (rule agree_except_trans)
      qed
    qed
  qed
qed (auto simp: agree_except_refl)

lemma hdict_setitem_Inr:
  "hdict_setitem h r k v = Inr h' \<Longrightarrow>
     \<exists>d key. hkey k = Some key \<and> h ! r = HDict d \<and> h' = h[r := HDict (dict_update d key v)]"
  by (auto simp: hdict_setitem_def split: option.splits hobj.splits)

lemma hdict_setitem_frame:
  "hdict_setitem h r k v = Inr h' \<Longrightarrow> agree_except {r} h h'"
  by (auto dest!: hdict_setitem_Inr intro: agree_except_update)

lemma agree_except_fresh:
  "agree_except {length h} (h @ ext) h' \<Longrightarrow> agree_except {} h h'"
  by (auto simp: agree_except_def nth_append)

lemma agree_empty: "agree_except {} h h' \<Longrightarrow> agree_except R h h'"
  by (rule agree_except_mono) auto

lemma hmap_array_loop_frame:
  "\<forall>res h'. hmap_array_loop depth keys items idxs r h = (res, h') \<longrightarrow> agree_except {r} h h'"
proof (induction depth keys items idxs r h rule: hmap_array_loop.induct)
  case (1 depth keys items r h)
  then show ?case by (simp add: agree_except_refl)
next
  case (2 depth keys items i "is" r h)
  show ?case
  proof (intro allI impI)
    fix res h' assume run: "hmap_array_loop depth keys items (i # is) r h = (res, h')"
    show "agree_except {r} h h'"
    proof (cases "keys ! i \<noteq> HNone")
      case False
      with 2(2) run show ?thesis by simp
    next
      case key: True
      show ?thesis
      proof (cases "i < length items")
        case False
        with key run show ?thesis by (simp add: agree_except_refl)
      next
        case len: True
        obtain r1 h1 where a: "hconvert depth (items ! i) h = (r1, h1)" by fastforce
        from hconvert_frame(1) a have f1: "agree_except {r} h h1"
          by (blast intro: agree_empty)
        show ?thesis
        proof (cases r1)
          case (Inl e)
          with run key len a f1 show ?thesis by simp
        next
          case v: (Inr v)
          obtain r2 h2 where b: "hconvert depth (keys ! i) h1 = (r2, h2)" by fastforce
          from hconvert_frame(1) b have f2: "agree_except {r} h1 h2"
            by (blast intro: agree_empty)
          show ?thesis
          proof (cases r2)
            case (Inl e)
            with run key len a v b f1 f2 show ?thesis
              by (auto intro: agree_except_trans)
          next
            case k: (Inr k)
            show ?thesis
            proof (cases "hdict_setitem h2 r k v")
              case (Inl e)
              with run key len a v b k f1 f2 show ?thesis
                by (auto intro: agree_except_trans)
            next
              case (Inr h3)
              from hdict_setitem_frame[OF Inr] have f3: "agree_except {r} h2 h3" .
              from 2(1)[OF key len a[symmetric, unfolded v] refl b[symmetric, unfolded k] refl Inr]
                run key len a v b k Inr
              have "agree_except {r} h3 h'" by simp
              with f1 f2 f3 show ?thesis by (blast intro: agree_except_trans)
            qed
          qed
        qed
      qed
    qed
  qed
qed

lemma hconvert_arrow_Array_many:
  "1 < length ps \<Longrightarrow> hconvert_arrow (Suc depth) (HArray ps) h =
     (case alloc_py_list ps h of
        (xs, h1) \<Rightarrow>
          (case hconvert_list depth xs h1 of
             (Inl e, h2) \<Rightarrow> (Inl e, h2)
           | (Inr ys, h2) \<Rightarrow> (Inr (HRef (length h2)), h2 @ [HList ys])))"
  by (cases ps) auto

lemma hconvert_arrow_frame:
  "\<forall>res h'. hconvert_arrow depth x h = (res, h') \<longrightarrow> agree_except {} h h'"
  "\<forall>res h'. hstruct_array_loop depth names flds r h = (res, h') \<longrightarrow> agree_except {r} h h'"
proof (induction depth x h and depth names flds r h rule: hconvert_arrow_hstruct_array_loop.induct)
  case (1 x h)
  then show ?case by (simp add: agree_except_refl)
next
  case (2 depth v h)
  then show ?case using hconvert_frame(1) by simp
next
  case (3 depth ks "is" h)
  show ?case
  proof (intro allI impI)
    fix res h' assume run: "hconvert_arrow (Suc depth) (HMapArray ks is) h = (res, h')"
    obtain keys h1 where a: "alloc_py_list ks (h @ [HDict []]) = (keys, h1)" by fastforce
    obtain items h2 where b: "alloc_py_list is h1 = (items, h2)" by fastforce
    obtain r3 h3 where c: "hmap_array_loop depth keys items [0..<length keys] (length h) h2 = (r3, h3)"
      by fastforce
    from alloc_frame(2) a have "agree_except {length h} (h @ [HDict []]) h1"
      by (blast intro: agree_empty)
    moreover from alloc_frame(2) b have "agree_except {length h} h1 h2"
      by (blast intro: agree_empty)
    moreover from hmap_array_loop_frame c have "agree_except {length h} h2 h3" by blast
    ultimately have "agree_except {length h} (h @ [HDict []]) h3"
      by (blast intro: agree_except_trans)
    then have "agree_except {} h h3" by (rule agree_except_fresh)
    with run a b c show "agree_except {} h h'"
      by (cases r3) (simp_all add: Let_def)
  qed
next
  case (4 depth ps h)
  show ?case
  proof (intro allI impI)
    fix res h' assume run: "hconvert_arrow (Suc depth) (HListArray ps) h = (res, h')"
    obtain xs h1 where a: "alloc_py_list ps h = (xs, h1)" by fastforce
    obtain r2 h2 where b: "hconvert_list depth xs h1 = (r2, h2)" by fastforce
    from alloc_frame(2) a hconvert_frame(2) b have "agree_except {} h h2"
      by (blast intro: agree_except_trans)
    with run a b show "agree_except {} h h'"
      by (cases r2) (auto intro: agree_except_trans agree_except_append)
  qed
next
  case (5 depth ps h)
  show ?case
  proof (intro allI impI)
    fix res h' assume run: "hconvert_arrow (Suc depth) (HLargeListArray ps) h = (res, h')"
    obtain xs h1 where a: "alloc_py_list ps h = (xs, h1)" by fastforce
    obtain r2 h2 where b: "hconvert_list depth xs h1 = (r2, h2)" by fastforce
    from alloc_frame(2) a hconvert_frame(2) b have "agree_except {} h h2"
      by (blast intro: agree_except_trans)
    with run a b show "agree_except {} h h'"
      by (cases r2) (auto intro: agree_except_trans agree_except_append)
  qed
next
  case (6 depth flds h)
  show ?case
  proof (intro allI impI)
    fix res h' assume run: "hconvert_arrow (Suc depth) (HStructArray flds) h = (res, h')"
    obtain r1 h1 where a:
      "hstruct_array_loop depth (map fst flds) flds (length h) (h @ [HDict []]) = (r1, h1)"
      by fastforce
    from 6[OF refl refl] a have "agree_except {length h} (h @ [HDict []]) h1" by blast
    then have "agree_except {} h h1" by (rule agree_except_fresh)
    with run a show "agree_except {} h h'"
      by (cases r1) (simp_all add: Let_def)
  qed
next
  case (7 depth ps h)
  show ?case
  proof (intro allI impI)
    fix res h' assume run: "hconvert_arrow (Suc depth) (HArray ps) h = (res, h')"
    consider "length ps = 0" | "length ps = 1" | "1 < length ps" by linarith
    then show "agree_except {} h h'"
    proof cases
      case 1
      with run show ?thesis by (simp add: agree_except_refl)
    next
      case 2
      obtain x h1 where a: "alloc_py (ps ! 0) h = (x, h1)" by fastforce
      from alloc_frame(1) a have "agree_except {} h h1" by blast
      moreover from hconvert_frame(1) run 2 a have "agree_except {} h1 h'" by auto
      ultimately show ?thesis by (rule agree_except_trans)
    next
      case 3
      obtain xs h1 where a: "alloc_py_list ps h = (xs, h1)" by fastforce
      obtain r2 h2 where b: "hconvert_list depth xs h1 = (r2, h2)" by fastforce
      from alloc_frame(2) a hconvert_frame(2) b have "agree_except {} h h2"
        by (blast intro: agree_except_trans)
      with run[unfolded hconvert_arrow_Array_many[OF 3]] a b show ?thesis
        by (cases r2) (auto intro: agree_except_trans agree_except_append)
    qed
  qed
next
  case (8 depth p h)
  show ?case
  proof (intro allI impI)
    fix res h' assume run: "hconvert_arrow (Suc depth) (HScalar p) h = (res, h')"
    obtain x h1 where a: "alloc_py p h = (x, h1)" by fastforce
    from alloc_frame(1) a have "agree_except {} h h1" by blast
    moreover from hconvert_frame(1) run a have "agree_except {} h1 h'" by auto
    ultimately show "agree_except {} h h'" by (rule agree_except_trans)
  qed
next
  case (9 depth names r h)
  then show ?case by (simp add: agree_except_refl)
next
  case (10 depth names name field_value flds r h)
  show ?case
  proof (intro allI impI)
    fix res h'
    assume run: "hstruct_array_loop depth names ((name, field_value) # flds) r h = (res, h')"
    show "agree_except {r} h h'"
    proof (cases "count_list names name \<noteq> 1")
      case True
      with run show ?thesis by (simp add: agree_except_refl)
    next
      case c: False
      show ?thesis
      proof (cases "field_value \<noteq> HObj HNone")
        case False
        with 10(3)[OF c] run c show ?thesis by simp
      next
        case True
        obtain r1 h1 where a: "hconvert_arrow depth field_value h = (r1, h1)" by fastforce
        from 10(1)[OF c True] a have f1: "agree_except {r} h h1" by (blast intro: agree_empty)
        show ?thesis
        proof (cases r1)
          case (Inl e)
          with run c True a f1 show ?thesis by simp
        next
          case v: (Inr v)
          show ?thesis
          proof (cases "hdict_setitem h1 r (HStr name) v")
            case (Inl e)
            with run c True a v f1 show ?thesis by simp
          next
            case (Inr h2)
            from hdict_setitem_frame[OF Inr] have f2: "agree_except {r} h1 h2" .
            from 10(2)[OF c True a[symmetric, unfolded v] refl Inr] run c True a v Inr
            have "agree_except {r} h2 h'" by simp
            with f1 f2 show ?thesis by (blast intro: agree_except_trans)
          qed
        qed
      qed
    qed
  qed
qed

section \<open>The store: the converter computes on the values\<close>

lemma drel_Nil: "drel F h [] []"
  by (simp add: drel_def)

lemma drel_Nil1: "drel F h [] dp \<longleftrightarrow> dp = []"
  by (auto simp: drel_def)

lemma drel_Cons1:
  "drel F h ((k, v) # d) dp \<longleftrightarrow> (\<exists>p dp'. dp = (k, p) # dp' \<and> den F h v p \<and> drel F h d dp')"
  by (cases dp) (auto simp: drel_def)

lemma list_all2_den_transfer:
  "list_all2 (den F h) vs ps \<Longrightarrow> agree_except R h h' \<Longrightarrow> R \<subseteq> F \<Longrightarrow> list_all2 (den F h') vs ps"
  by (erule list_all2_mono) (rule den_transfer)

lemma drel_transfer:
  "drel F h d dp \<Longrightarrow> agree_except R h h' \<Longrightarrow> R \<subseteq> F \<Longrightarrow> drel F h' d dp"
  by (auto simp: drel_def intro: list_all2_den_transfer)

lemma drel_weaken: "drel F h d dp \<Longrightarrow> F' \<subseteq> F \<Longrightarrow> drel F' h d dp"
  unfolding drel_def by (auto elim!: list_all2_mono intro: den_weaken)

lemma drel_update:
  "drel F h d dp \<Longrightarrow> den F h v p \<Longrightarrow> drel F h (dict_update d k v) (dict_update dp k p)"
proof (induction d arbitrary: dp)
  case Nil
  then show ?case by (simp add: drel_Nil1 drel_def)
next
  case (Cons kv d)
  obtain k0 v0 where kv: "kv = (k0, v0)" by (cases kv)
  from Cons.prems(1) obtain p0 dp' where dp: "dp = (k0, p0) # dp'"
    and v0: "den F h v0 p0" and rest: "drel F h d dp'"
    by (auto simp: kv drel_Cons1)
  show ?case
  proof (cases "py_eq k0 k")
    case True
    with Cons.prems(2) rest show ?thesis by (simp add: kv dp drel_Cons1)
  next
    case False
    with Cons.IH[OF rest Cons.prems(2)] v0 show ?thesis by (simp add: kv dp drel_Cons1)
  qed
qed

lemma list_all2_den_append:
  "list_all2 (den F h) vs ps \<Longrightarrow> list_all2 (den F (h @ ext)) vs ps"
  by (rule list_all2_den_transfer[OF _ agree_except_append[of "{}"]]) simp_all

lemma drel_append: "drel F h d dp \<Longrightarrow> drel F (h @ ext) d dp"
  by (rule drel_transfer[OF _ agree_except_append[of "{}"]]) simp_all

lemma bound_mono: "\<forall>a\<in>F. a < length h \<Longrightarrow> agree_except R h h' \<Longrightarrow> \<forall>a\<in>F. a < length h'"
  by (auto simp: agree_except_def)

lemma alloc_den:
  "\<forall>v h'. alloc_py p h = (v, h') \<longrightarrow> (\<forall>a\<in>F. a < length h) \<longrightarrow> den F h' v p"
  "\<forall>vs h'. alloc_py_list ps h = (vs, h') \<longrightarrow> (\<forall>a\<in>F. a < length h) \<longrightarrow> list_all2 (den F h') vs ps"
  "\<forall>kvs h'. alloc_py_items kps h = (kvs, h') \<longrightarrow> (\<forall>a\<in>F. a < length h) \<longrightarrow> drel F h' kvs kps"
proof (induction p h and ps h and kps h rule: alloc_py_alloc_py_list_alloc_py_items.induct)
  case (6 ps h)
  then show ?case by (auto split: prod.splits intro: den.intros)
next
  case (7 ps h)
  show ?case
  proof (intro allI impI)
    fix v h' assume run: "alloc_py (PyList ps) h = (v, h')" and b: "\<forall>a\<in>F. a < length h"
    obtain vs h1 where a: "alloc_py_list ps h = (vs, h1)" by fastforce
    from 7 a b have l: "list_all2 (den F h1) vs ps" by blast
    from alloc_frame(2) a have fr: "agree_except {} h h1" by blast
    from run a have v: "v = HRef (length h1)" and h': "h' = h1 @ [HList vs]" by auto
    from bound_mono[OF b fr] have nf: "length h1 \<notin> F" by auto
    have "list_all2 (den F h') vs ps"
      unfolding h' using l by (rule list_all2_den_append)
    with nf show "den F h' v (PyList ps)"
      unfolding v h' by (auto intro!: den.den_List)
  qed
next
  case (8 kps h)
  show ?case
  proof (intro allI impI)
    fix v h' assume run: "alloc_py (PyDict kps) h = (v, h')" and b: "\<forall>a\<in>F. a < length h"
    obtain kvs h1 where a: "alloc_py_items kps h = (kvs, h1)" by fastforce
    from 8 a b have l: "drel F h1 kvs kps" by blast
    from alloc_frame(3) a have fr: "agree_except {} h h1" by blast
    from run a have v: "v = HRef (length h1)" and h': "h' = h1 @ [HDict kvs]" by auto
    from bound_mono[OF b fr] have nf: "length h1 \<notin> F" by auto
    have "drel F h' kvs kps"
      unfolding h' using l by (rule drel_append)
    with nf show "den F h' v (PyDict kps)"
      unfolding v h' by (auto simp: drel_def intro!: den.den_Dict)
  qed
next
  case (10 p ps h)
  show ?case
  proof (intro allI impI)
    fix vs h' assume run: "alloc_py_list (p # ps) h = (vs, h')" and b: "\<forall>a\<in>F. a < length h"
    obtain v h1 where a: "alloc_py p h = (v, h1)" by fastforce
    obtain vs' h2 where c: "alloc_py_list ps h1 = (vs', h2)" by fastforce
    from 10(1) a b have dv: "den F h1 v p" by blast
    from alloc_frame(1) a have fr: "agree_except {} h h1" by blast
    from 10(2)[OF a[symmetric]] c bound_mono[OF b fr]
    have l: "list_all2 (den F h2) vs' ps" by blast
    from alloc_frame(2) c have "agree_except {} h1 h2" by blast
    from den_transfer[OF dv this] have "den F h2 v p" by simp
    with l run a c show "list_all2 (den F h') vs (p # ps)" by auto
  qed
next
  case (12 k p kps h)
  show ?case
  proof (intro allI impI)
    fix kvs h' assume run: "alloc_py_items ((k, p) # kps) h = (kvs, h')" and b: "\<forall>a\<in>F. a < length h"
    obtain v h1 where a: "alloc_py p h = (v, h1)" by fastforce
    obtain kvs' h2 where c: "alloc_py_items kps h1 = (kvs', h2)" by fastforce
    from 12(1) a b have dv: "den F h1 v p" by blast
    from alloc_frame(1) a have fr: "agree_except {} h h1" by blast
    from 12(2)[OF a[symmetric]] c bound_mono[OF b fr]
    have l: "drel F h2 kvs' kps" by blast
    from alloc_frame(3) c have "agree_except {} h1 h2" by blast
    from den_transfer[OF dv this] have "den F h2 v p" by simp
    with l run a c show "drel F h' kvs ((k, p) # kps)" by (auto simp: drel_Cons1)
  qed
qed (auto intro: den.intros simp: drel_Nil)

lemma out_rel_Inl: "out_rel R (Inl e) pres \<longleftrightarrow> e = RecursionError \<or> pres = Inl e"
  by (simp add: out_rel_def)

lemma out_rel_Inr: "out_rel R (Inr y) pres \<longleftrightarrow> (\<exists>p. pres = Inr p \<and> R y p)"
  by (simp add: out_rel_def)

lemma dict_setitem_drel:
  assumes "drel F h acc accp" "den F h v p"
  shows "(\<forall>e. dict_setitem acc k v = Inl e \<longrightarrow> dict_setitem accp k p = Inl e) \<and>
         (\<forall>acc'. dict_setitem acc k v = Inr acc' \<longrightarrow>
            (\<exists>accp'. dict_setitem accp k p = Inr accp' \<and> drel F h acc' accp'))"
  using drel_update[OF assms] by (auto simp: dict_setitem_def)

lemma hconvert_den:
  "\<forall>res h' p. hconvert depth v h = (res, h') \<longrightarrow> den F h v p \<longrightarrow> (\<forall>a\<in>F. a < length h) \<longrightarrow>
      out_rel (den F h') res (convert_py p)"
  "\<forall>res h' ps. hconvert_list depth xs h = (res, h') \<longrightarrow> list_all2 (den F h) xs ps \<longrightarrow>
      (\<forall>a\<in>F. a < length h) \<longrightarrow> out_rel (list_all2 (den F h')) res (convert_py_list ps)"
  "\<forall>res h' kps accp. hconvert_items depth kvs acc h = (res, h') \<longrightarrow> drel F h kvs kps \<longrightarrow>
      drel F h acc accp \<longrightarrow> (\<forall>a\<in>F. a < length h) \<longrightarrow>
      out_rel (drel F h') res (convert_py_items kps accp)"
proof (induction depth v h and depth xs h and depth kvs acc h
    rule: hconvert_hconvert_list_hconvert_items.induct)
  case (1 v h)
  then show ?case by (simp add: out_rel_def)
next
  case (2 depth h)
  then show ?case by (auto simp: out_rel_def elim!: den_HNoneE intro: den.intros)
next
  case (3 depth a h)
  show ?case
  proof (intro allI impI)
    fix res h' p
    assume run: "hconvert (Suc depth) (HRef a) h = (res, h')" and d: "den F h (HRef a) p"
      and b: "\<forall>a\<in>F. a < length h"
    from d have alen: "a < length h" by (auto elim: den_HRefE)
    show "out_rel (den F h') res (convert_py p)"
    proof (cases "h ! a")
      case (HList xs)
      with d obtain ps where p: "p = PyList ps" and l: "list_all2 (den F h) xs ps"
        by (auto elim: den_HRefE)
      obtain r1 h1 where c: "hconvert_list depth xs h = (r1, h1)" by fastforce
      from 3(1)[OF alen HList] c l b
      have o: "out_rel (list_all2 (den F h1)) r1 (convert_py_list ps)" by blast
      from hconvert_frame(2) c have fr: "agree_except {} h h1" by blast
      show ?thesis
      proof (cases r1)
        case (Inl e)
        with run alen HList c o show ?thesis by (auto simp: p out_rel_Inl)
      next
        case (Inr ys)
        with o obtain ps' where ps': "convert_py_list ps = Inr ps'"
          and l': "list_all2 (den F h1) ys ps'"
          by (auto simp: out_rel_Inr)
        from run alen HList c Inr have res: "res = Inr (HRef (length h1))"
          and h': "h' = h1 @ [HList ys]" by auto
        from bound_mono[OF b fr] have "length h1 \<notin> F" by auto
        with list_all2_den_append[OF l'] have "den F h' (HRef (length h1)) (PyList ps')"
          unfolding h' by (auto intro!: den.den_List)
        with ps' show ?thesis by (simp add: res p out_rel_Inr)
      qed
    next
      case (HDict kvs)
      with d obtain kps where p: "p = PyDict kps" and l: "drel F h kvs kps"
        by (auto simp: drel_def elim: den_HRefE)
      obtain r1 h1 where c: "hconvert_items depth kvs [] h = (r1, h1)" by fastforce
      from 3(2)[OF alen HDict] c l b drel_Nil
      have o: "out_rel (drel F h1) r1 (convert_py_items kps [])" by blast
      from hconvert_frame(3) c have fr: "agree_except {} h h1" by blast
      show ?thesis
      proof (cases r1)
        case (Inl e)
        with run alen HDict c o show ?thesis by (auto simp: p out_rel_Inl)
      next
        case (Inr dd)
        with o obtain dp where dp: "convert_py_items kps [] = Inr dp"
          and l': "drel F h1 dd dp"
          by (auto simp: out_rel_Inr)
        from run alen HDict c Inr have res: "res = Inr (HRef (length h1))"
          and h': "h' = h1 @ [HDict dd]" by auto
        from bound_mono[OF b fr] have "length h1 \<notin> F" by auto
        with drel_append[OF l'] have "den F h' (HRef (length h1)) (PyDict dp)"
          unfolding h' by (auto simp: drel_def intro!: den.den_Dict)
        with dp show ?thesis by (simp add: res p out_rel_Inr)
      qed
    qed
  qed
next
  case (4 depth b h)
  then show ?case by (auto simp: out_rel_def elim!: den_HBoolE intro: den.intros)
next
  case (5 depth i h)
  then show ?case by (auto simp: out_rel_def elim!: den_HIntE intro: den.intros)
next
  case (6 depth s h)
  then show ?case by (auto simp: out_rel_def elim!: den_HStrE intro: den.intros)
next
  case (7 depth s h)
  then show ?case by (auto simp: out_rel_def elim!: den_HOtherE intro: den.intros)
next
  case (8 depth vs h)
  then show ?case by (auto simp: out_rel_def elim!: den_HTupleE intro: den.intros)
next
  case (9 depth h)
  then show ?case by (simp add: out_rel_def)
next
  case (10 depth x xs h)
  show ?case
  proof (intro allI impI)
    fix res h' ps
    assume run: "hconvert_list depth (x # xs) h = (res, h')"
      and l: "list_all2 (den F h) (x # xs) ps" and b: "\<forall>a\<in>F. a < length h"
    from l obtain p ps0 where ps: "ps = p # ps0" and dx: "den F h x p"
      and l0: "list_all2 (den F h) xs ps0"
      by (auto simp: list_all2_Cons1)
    obtain r1 h1 where a: "hconvert depth x h = (r1, h1)" by fastforce
    from 10(1) a dx b have o1: "out_rel (den F h1) r1 (convert_py p)" by blast
    from hconvert_frame(1) a have fr1: "agree_except {} h h1" by blast
    show "out_rel (list_all2 (den F h')) res (convert_py_list ps)"
    proof (cases r1)
      case (Inl e)
      with run a o1 show ?thesis by (auto simp: ps out_rel_Inl)
    next
      case y: (Inr y)
      with o1 obtain p' where p': "convert_py p = Inr p'" and dy: "den F h1 y p'"
        by (auto simp: out_rel_Inr)
      obtain r2 h2 where c: "hconvert_list depth xs h1 = (r2, h2)" by fastforce
      from list_all2_den_transfer[OF l0 fr1] have l1: "list_all2 (den F h1) xs ps0" by simp
      from 10(2)[OF a[symmetric, unfolded y] refl] c l1 bound_mono[OF b fr1]
      have o2: "out_rel (list_all2 (den F h2)) r2 (convert_py_list ps0)" by blast
      from hconvert_frame(2) c have fr2: "agree_except {} h1 h2" by blast
      show ?thesis
      proof (cases r2)
        case (Inl e)
        with run a y c o2 p' show ?thesis by (auto simp: ps out_rel_Inl)
      next
        case (Inr ys)
        with o2 obtain ps0' where q: "convert_py_list ps0 = Inr ps0'"
          and lq: "list_all2 (den F h2) ys ps0'"
          by (auto simp: out_rel_Inr)
        from den_transfer[OF dy fr2] have "den F h2 y p'" by simp
        with run a y c Inr q lq p' show ?thesis by (auto simp: ps out_rel_Inr)
      qed
    qed
  qed
next
  case (11 depth acc h)
  then show ?case by (auto simp: out_rel_def drel_Nil1)
next
  case (12 depth k v kvs acc h)
  show ?case
  proof (intro allI impI)
    fix res h' kps accp
    assume run: "hconvert_items depth ((k, v) # kvs) acc h = (res, h')"
      and l: "drel F h ((k, v) # kvs) kps" and ac: "drel F h acc accp"
      and b: "\<forall>a\<in>F. a < length h"
    from l obtain p kps0 where kps: "kps = (k, p) # kps0" and dv: "den F h v p"
      and l0: "drel F h kvs kps0"
      by (auto simp: drel_Cons1)
    obtain r1 h1 where a: "hconvert depth v h = (r1, h1)" by fastforce
    from 12(1) a dv b have o1: "out_rel (den F h1) r1 (convert_py p)" by blast
    from hconvert_frame(1) a have fr1: "agree_except {} h h1" by blast
    show "out_rel (drel F h') res (convert_py_items kps accp)"
    proof (cases r1)
      case (Inl e)
      with run a o1 show ?thesis by (auto simp: kps out_rel_Inl)
    next
      case y: (Inr v')
      with o1 obtain p' where p': "convert_py p = Inr p'" and dy: "den F h1 v' p'"
        by (auto simp: out_rel_Inr)
      from drel_transfer[OF ac fr1] have ac1: "drel F h1 acc accp" by simp
      from drel_transfer[OF l0 fr1] have l1: "drel F h1 kvs kps0" by simp
      note si = dict_setitem_drel[OF ac1 dy, of k]
      show ?thesis
      proof (cases "dict_setitem acc k v'")
        case (Inl e)
        with si have "dict_setitem accp k p' = Inl e" by blast
        moreover have "hconvert_items depth ((k, v) # kvs) acc h = (Inl e, h1)"
          by (simp add: a y Inl)
        with run have "res = Inl e" by simp
        ultimately show ?thesis using p' by (simp add: kps out_rel_Inl)
      next
        case (Inr acc')
        with si obtain accp' where s': "dict_setitem accp k p' = Inr accp'"
          and ac': "drel F h1 acc' accp'" by blast
        from run a y Inr have run': "hconvert_items depth kvs acc' h1 = (res, h')" by simp
        from 12(2)[OF a[symmetric, unfolded y] refl Inr] run' l1 ac' bound_mono[OF b fr1]
        have "out_rel (drel F h') res (convert_py_items kps0 accp')" by blast
        with p' s' show ?thesis by (simp add: kps)
      qed
    qed
  qed
qed

lemma den_None_iff: "den F h v p \<Longrightarrow> v = HNone \<longleftrightarrow> p = PyNone"
  by (auto elim: den.cases)

lemma agree_nth: "agree_except R h h' \<Longrightarrow> a < length h \<Longrightarrow> a \<notin> R \<Longrightarrow> h' ! a = h ! a"
  by (simp add: agree_except_def)

lemma hdict_setitem_den:
  assumes k: "den F h k kp" and v: "den F h v p" and r: "r \<in> F" "r < length h"
    and cur: "h ! r = HDict cur" "drel F h cur curp"
  shows "(\<forall>e. hdict_setitem h r k v = Inl e \<longrightarrow> dict_setitem curp kp p = Inl e) \<and>
         (\<forall>h'. hdict_setitem h r k v = Inr h' \<longrightarrow>
            (\<exists>cur' curp'. dict_setitem curp kp p = Inr curp' \<and> h' ! r = HDict cur' \<and>
               drel F h' cur' curp' \<and> agree_except {r} h h'))"
proof (cases "hashable kp")
  case False
  with den_hkey[OF k] show ?thesis
    by (simp add: hdict_setitem_def dict_setitem_def)
next
  case True
  with den_hkey[OF k] have hk: "hkey k = Some kp" by simp
  let ?h' = "h[r := HDict (dict_update cur kp v)]"
  have fr: "agree_except {r} h ?h'" by (rule agree_except_update) simp
  from drel_update[OF cur(2) v, of kp] have "drel F h (dict_update cur kp v) (dict_update curp kp p)" .
  from drel_transfer[OF this fr] r have "drel F ?h' (dict_update cur kp v) (dict_update curp kp p)"
    by simp
  with hk True cur r fr show ?thesis
    by (simp add: hdict_setitem_def dict_setitem_def)
qed

lemma hmap_array_loop_den:
  "\<forall>res h' cur curp. hmap_array_loop depth keys items idxs r h = (res, h') \<longrightarrow>
     list_all2 (den F h) keys pkeys \<longrightarrow> list_all2 (den F h) items pitems \<longrightarrow>
     (\<forall>i\<in>set idxs. i < length keys) \<longrightarrow> r \<in> F \<longrightarrow> (\<forall>a\<in>F. a < length h) \<longrightarrow>
     h ! r = HDict cur \<longrightarrow> drel F h cur curp \<longrightarrow>
     out_rel (\<lambda>u dp. \<exists>d'. h' ! r = HDict d' \<and> drel F h' d' dp) res
       (map_array_loop pkeys pitems idxs curp)"
proof (induction depth keys items idxs r h rule: hmap_array_loop.induct)
  case (1 depth keys items r h)
  then show ?case by (auto simp: out_rel_def)
next
  case (2 depth keys items i "is" r h)
  show ?case
  proof (intro allI impI)
    fix res h' cur curp
    assume run: "hmap_array_loop depth keys items (i # is) r h = (res, h')"
      and lk: "list_all2 (den F h) keys pkeys" and li: "list_all2 (den F h) items pitems"
      and idx: "\<forall>i\<in>set (i # is). i < length keys" and r: "r \<in> F"
      and b: "\<forall>a\<in>F. a < length h" and cur: "h ! r = HDict cur" and dc: "drel F h cur curp"
    let ?R = "\<lambda>h' (u::unit) dp. \<exists>d'. h' ! r = HDict d' \<and> drel F h' d' dp"
    from idx have i: "i < length keys" and idx': "\<forall>i\<in>set is. i < length keys" by auto
    from lk i have dk: "den F h (keys ! i) (pkeys ! i)" by (simp add: list_all2_conv_all_nth)
    from li have leni: "length items = length pitems" by (rule list_all2_lengthD)
    from r b have rlen: "r < length h" by blast
    show "out_rel (?R h') res (map_array_loop pkeys pitems (i # is) curp)"
    proof (cases "keys ! i \<noteq> HNone")
      case False
      with den_None_iff[OF dk] have pn: "pkeys ! i = PyNone" by simp
      from False run have "hmap_array_loop depth keys items is r h = (res, h')" by simp
      with 2(2)[OF False] lk li idx' r b cur dc
      have "out_rel (?R h') res (map_array_loop pkeys pitems is curp)" by blast
      with pn show ?thesis by simp
    next
      case key: True
      with den_None_iff[OF dk] have pn: "pkeys ! i \<noteq> PyNone" by simp
      show ?thesis
      proof (cases "i < length items")
        case False
        with key run pn leni show ?thesis by (auto simp: out_rel_Inl)
      next
        case len: True
        from li len have di: "den F h (items ! i) (pitems ! i)" by (simp add: list_all2_conv_all_nth)
        from len leni have plen: "i < length pitems" by simp
        obtain r1 h1 where a: "hconvert depth (items ! i) h = (r1, h1)" by fastforce
        from hconvert_den(1) a di b have o1: "out_rel (den F h1) r1 (convert_py (pitems ! i))"
          by blast
        from hconvert_frame(1) a have fr1: "agree_except {} h h1" by blast
        show ?thesis
        proof (cases r1)
          case (Inl e)
          with run key len a have "res = Inl e" by simp
          with o1 Inl pn plen show ?thesis by (auto simp: out_rel_Inl)
        next
          case v: (Inr v)
          with o1 obtain p' where p': "convert_py (pitems ! i) = Inr p'" and dv: "den F h1 v p'"
            by (auto simp: out_rel_Inr)
          obtain r2 h2 where c: "hconvert depth (keys ! i) h1 = (r2, h2)" by fastforce
          from den_transfer[OF dk fr1] have dk1: "den F h1 (keys ! i) (pkeys ! i)" by simp
          from hconvert_den(1) c dk1 bound_mono[OF b fr1]
          have o2: "out_rel (den F h2) r2 (convert_py (pkeys ! i))" by blast
          from hconvert_frame(1) c have fr2: "agree_except {} h1 h2" by blast
          show ?thesis
          proof (cases r2)
            case (Inl e)
            with run key len a v c have "res = Inl e" by simp
            with o2 Inl pn plen p' show ?thesis by (auto simp: out_rel_Inl)
          next
            case k: (Inr k)
            with o2 obtain kp where kp: "convert_py (pkeys ! i) = Inr kp" and dkk: "den F h2 k kp"
              by (auto simp: out_rel_Inr)
            from agree_except_trans[OF fr1 fr2] have fr12: "agree_except {} h h2" .
            from den_transfer[OF dv fr2] have dv2: "den F h2 v p'" by simp
            from agree_nth[OF fr12 rlen] cur have cur2: "h2 ! r = HDict cur" by simp
            from drel_transfer[OF dc fr12] have dc2: "drel F h2 cur curp" by simp
            from fr12 rlen have rlen2: "r < length h2" by (simp add: agree_except_def)
            note si = hdict_setitem_den[OF dkk dv2 r rlen2 cur2 dc2]
            show ?thesis
            proof (cases "hdict_setitem h2 r k v")
              case (Inl e)
              with si have "dict_setitem curp kp p' = Inl e" by blast
              moreover from run key len a v c k Inl have "res = Inl e" by simp
              ultimately show ?thesis using pn plen p' kp by (simp add: out_rel_Inl)
            next
              case (Inr h3)
              with si obtain cur' curp' where s': "dict_setitem curp kp p' = Inr curp'"
                and cur3: "h3 ! r = HDict cur'" and dc3: "drel F h3 cur' curp'"
                and fr3: "agree_except {r} h2 h3"
                by blast
              from run key len a v c k Inr
              have run': "hmap_array_loop depth keys items is r h3 = (res, h')" by simp
              have fr03: "agree_except {r} h h3"
                using agree_empty[OF fr12] fr3 by (rule agree_except_trans)
              from list_all2_den_transfer[OF lk fr03] r
              have lk3: "list_all2 (den F h3) keys pkeys" by simp
              from list_all2_den_transfer[OF li fr03] r
              have li3: "list_all2 (den F h3) items pitems" by simp
              from 2(1)[OF key len a[symmetric, unfolded v] refl c[symmetric, unfolded k] refl Inr]
                run' lk3 li3 idx' r bound_mono[OF b fr03] cur3 dc3
              have "out_rel (?R h') res (map_array_loop pkeys pitems is curp')" by blast
              with pn plen p' kp s' show ?thesis by simp
            qed
          qed
        qed
      qed
    qed
  qed
qed

inductive_cases inden_HObjE: "inden F h (HObj v) X"
inductive_cases inden_ObjE: "inden F h x (Obj p)"
inductive_cases inden_HMapE: "inden F h (HMapArray ks is) X"
inductive_cases inden_HListE: "inden F h (HListArray ps) X"
inductive_cases inden_HLargeListE: "inden F h (HLargeListArray ps) X"
inductive_cases inden_HStructE: "inden F h (HStructArray flds) X"
inductive_cases inden_HArrayE: "inden F h (HArray ps) X"
inductive_cases inden_HScalarE: "inden F h (HScalar p) X"

lemma frel_Nil1: "frel F h [] pflds \<longleftrightarrow> pflds = []"
  by (auto simp: frel_def)

lemma frel_Cons1:
  "frel F h ((n, x) # flds) pflds \<longleftrightarrow>
     (\<exists>X pflds'. pflds = (n, X) # pflds' \<and> inden F h x X \<and> frel F h flds pflds')"
  by (cases pflds) (auto simp: frel_def)

lemma inden_transfer:
  "inden F h x X \<Longrightarrow> agree_except R h h' \<Longrightarrow> R \<subseteq> F \<Longrightarrow> inden F h' x X"
proof (induction rule: inden.induct)
  case (inden_Obj v p)
  then show ?case by (auto intro: inden.intros den_transfer)
next
  case (inden_Struct flds pflds)
  then have "list_all2 (inden F h') (map snd flds) (map snd pflds)"
    by (auto elim!: list_all2_mono)
  with inden_Struct(1) show ?case by (rule inden.inden_Struct)
qed (auto intro: inden.intros)

lemma inden_forbid_fresh:
  "inden F h x X \<Longrightarrow> \<forall>a\<in>G. length h \<le> a \<Longrightarrow> inden (F \<union> G) h x X"
proof (induction rule: inden.induct)
  case (inden_Obj v p)
  then show ?case by (auto intro: inden.intros den_forbid_fresh)
next
  case (inden_Struct flds pflds)
  then have "list_all2 (inden (F \<union> G) h) (map snd flds) (map snd pflds)"
    by (auto elim!: list_all2_mono)
  with inden_Struct(1) show ?case by (rule inden.inden_Struct)
qed (auto intro: inden.intros)

lemma frel_transfer:
  "frel F h flds pflds \<Longrightarrow> agree_except R h h' \<Longrightarrow> R \<subseteq> F \<Longrightarrow> frel F h' flds pflds"
  unfolding frel_def by (auto elim!: list_all2_mono intro: inden_transfer)

lemma frel_forbid_fresh:
  "frel F h flds pflds \<Longrightarrow> \<forall>a\<in>G. length h \<le> a \<Longrightarrow> frel (F \<union> G) h flds pflds"
  unfolding frel_def by (auto elim!: list_all2_mono intro: inden_forbid_fresh)

lemma inden_None_iff: "inden F h x X \<Longrightarrow> x = HObj HNone \<longleftrightarrow> X = Obj PyNone"
  by (auto elim!: inden.cases dest: den_None_iff)

lemma fresh_result_den:
  assumes b: "\<forall>a\<in>F. a < length h" and fr: "agree_except {length h} (h @ [HDict []]) h'"
    and obj: "h' ! length h = HDict d" and rel: "drel (insert (length h) F) h' d dp"
  shows "den F h' (HRef (length h)) (PyDict dp)"
proof -
  from b have nf: "length h \<notin> F" by auto
  from fr have "length h < length h'" by (simp add: agree_except_def)
  moreover from drel_weaken[OF rel, of F] have "drel F h' d dp" by auto
  ultimately show ?thesis using nf obj
    by (auto simp: drel_def intro!: den.den_Dict)
qed

lemma list_result_den:
  assumes b: "\<forall>a\<in>F. a < length h" and a: "alloc_py_list ps h = (xs, h1)"
    and c: "hconvert_list depth xs h1 = (r2, h2)"
  shows "out_rel (den F (case r2 of Inl e \<Rightarrow> h2 | Inr ys \<Rightarrow> h2 @ [HList ys]))
           (case r2 of Inl e \<Rightarrow> Inl e | Inr ys \<Rightarrow> Inr (HRef (length h2)))
           (case convert_py_list ps of Inl e \<Rightarrow> Inl e | Inr ys \<Rightarrow> Inr (PyList ys))"
proof -
  from alloc_den(2) a b have l: "list_all2 (den F h1) xs ps" by blast
  from alloc_frame(2) a have fr1: "agree_except {} h h1" by blast
  from hconvert_den(2) c l bound_mono[OF b fr1]
  have o: "out_rel (list_all2 (den F h2)) r2 (convert_py_list ps)" by blast
  from hconvert_frame(2) c have fr2: "agree_except {} h1 h2" by blast
  show ?thesis
  proof (cases r2)
    case (Inl e)
    with o show ?thesis by (auto simp: out_rel_Inl)
  next
    case (Inr ys)
    with o obtain ps' where ps': "convert_py_list ps = Inr ps'"
      and l': "list_all2 (den F h2) ys ps'"
      by (auto simp: out_rel_Inr)
    from bound_mono[OF bound_mono[OF b fr1] fr2] have "length h2 \<notin> F" by auto
    with list_all2_den_append[OF l'] have "den F (h2 @ [HList ys]) (HRef (length h2)) (PyList ps')"
      by (auto intro!: den.den_List)
    with ps' Inr show ?thesis by (simp add: out_rel_Inr)
  qed
qed

lemma scalar_result_den:
  assumes b: "\<forall>a\<in>F. a < length h" and a: "alloc_py p h = (x, h1)"
    and c: "hconvert depth x h1 = (res, h')"
  shows "out_rel (den F h') res (convert_py p)"
proof -
  from alloc_den(1) a b have l: "den F h1 x p" by blast
  from alloc_frame(1) a have fr1: "agree_except {} h h1" by blast
  from hconvert_den(1) c l bound_mono[OF b fr1] show ?thesis by blast
qed

lemma hconvert_arrow_den:
  "\<forall>F res h' X. hconvert_arrow depth x h = (res, h') \<longrightarrow> inden F h x X \<longrightarrow>
      (\<forall>a\<in>F. a < length h) \<longrightarrow> out_rel (den F h') res (convert_arrow_value_to_python X)"
  "\<forall>F res h' pflds cur curp. hstruct_array_loop depth names flds r h = (res, h') \<longrightarrow>
      frel F h flds pflds \<longrightarrow> r \<in> F \<longrightarrow> (\<forall>a\<in>F. a < length h) \<longrightarrow>
      h ! r = HDict cur \<longrightarrow> drel F h cur curp \<longrightarrow>
      out_rel (\<lambda>u dp. \<exists>d'. h' ! r = HDict d' \<and> drel F h' d' dp) res
        (struct_array_loop names pflds curp)"
proof (induction depth x h and depth names flds r h rule: hconvert_arrow_hstruct_array_loop.induct)
  case (1 x h)
  then show ?case by (simp add: out_rel_def)
next
  case (2 depth v h)
  show ?case
  proof (intro allI impI)
    fix F res h' X
    assume run: "hconvert_arrow (Suc depth) (HObj v) h = (res, h')" and i: "inden F h (HObj v) X"
      and b: "\<forall>a\<in>F. a < length h"
    from i obtain p where X: "X = Obj p" and d: "den F h v p" by (auto elim: inden_HObjE)
    from hconvert_den(1) run d b show "out_rel (den F h') res (convert_arrow_value_to_python X)"
      unfolding X by auto
  qed
next
  case (3 depth ks "is" h)
  show ?case
  proof (intro allI impI)
    fix F res h' X
    assume run: "hconvert_arrow (Suc depth) (HMapArray ks is) h = (res, h')"
      and i: "inden F h (HMapArray ks is) X" and b: "\<forall>a\<in>F. a < length h"
    from i have X: "X = MapArray ks is" by (auto elim: inden_HMapE)
    let ?r = "length h" and ?F = "insert (length h) F" and ?h0 = "h @ [HDict []]"
    have b0: "\<forall>a\<in>?F. a < length ?h0" using b by auto
    obtain keys h1 where a: "alloc_py_list ks ?h0 = (keys, h1)" by fastforce
    obtain items h2 where c: "alloc_py_list is h1 = (items, h2)" by fastforce
    obtain r3 h3 where l: "hmap_array_loop depth keys items [0..<length keys] ?r h2 = (r3, h3)"
      by fastforce
    from alloc_frame(2) a have fr1: "agree_except {} ?h0 h1" by blast
    from alloc_frame(2) c have fr2: "agree_except {} h1 h2" by blast
    from agree_except_trans[OF fr1 fr2] have fr02: "agree_except {} ?h0 h2" .
    from alloc_den(2) a b0 have lk1: "list_all2 (den ?F h1) keys ks" by blast
    from list_all2_den_transfer[OF lk1 fr2] have lk: "list_all2 (den ?F h2) keys ks" by simp
    from alloc_den(2) c bound_mono[OF b0 fr1] have li: "list_all2 (den ?F h2) items is" by blast
    from lk have len: "length keys = length ks" by (rule list_all2_lengthD)
    have cur: "h2 ! ?r = HDict []" using agree_nth[OF fr02, of ?r] by simp
    from hmap_array_loop_den[of depth keys items "[0..<length keys]" ?r h2 ?F ks "is"] l lk li
      bound_mono[OF b0 fr02] cur drel_Nil[of ?F h2]
    have o: "out_rel (\<lambda>u dp. \<exists>d'. h3 ! ?r = HDict d' \<and> drel ?F h3 d' dp) r3
        (map_array_loop ks is [0..<length keys] [])"
      by auto
    from hmap_array_loop_frame l have fr3: "agree_except {?r} h2 h3" by blast
    have fr03: "agree_except {?r} ?h0 h3"
      using agree_empty[OF fr02] fr3 by (rule agree_except_trans)
    show "out_rel (den F h') res (convert_arrow_value_to_python X)"
    proof (cases r3)
      case (Inl e)
      with run a c l have "res = Inl e" by (simp add: Let_def)
      with o Inl show ?thesis by (auto simp: X len out_rel_Inl)
    next
      case (Inr u)
      with run a c l have res: "res = Inr (HRef ?r)" and h': "h' = h3" by (simp_all add: Let_def)
      from o Inr obtain dp d' where dp: "map_array_loop ks is [0..<length keys] [] = Inr dp"
        and obj: "h3 ! ?r = HDict d'" and rel: "drel ?F h3 d' dp"
        by (auto simp: out_rel_Inr)
      from fresh_result_den[OF b fr03 obj rel] dp show ?thesis
        by (simp add: X len res h' out_rel_Inr)
    qed
  qed
next
  case (4 depth ps h)
  show ?case
  proof (intro allI impI)
    fix F res h' X
    assume run: "hconvert_arrow (Suc depth) (HListArray ps) h = (res, h')"
      and i: "inden F h (HListArray ps) X" and b: "\<forall>a\<in>F. a < length h"
    from i have X: "X = ListArray ps" by (auto elim: inden_HListE)
    obtain xs h1 where a: "alloc_py_list ps h = (xs, h1)" by fastforce
    obtain r2 h2 where c: "hconvert_list depth xs h1 = (r2, h2)" by fastforce
    from list_result_den[OF b a c] run a c
    show "out_rel (den F h') res (convert_arrow_value_to_python X)"
      by (cases r2) (auto simp: X)
  qed
next
  case (5 depth ps h)
  show ?case
  proof (intro allI impI)
    fix F res h' X
    assume run: "hconvert_arrow (Suc depth) (HLargeListArray ps) h = (res, h')"
      and i: "inden F h (HLargeListArray ps) X" and b: "\<forall>a\<in>F. a < length h"
    from i have X: "X = LargeListArray ps" by (auto elim: inden_HLargeListE)
    obtain xs h1 where a: "alloc_py_list ps h = (xs, h1)" by fastforce
    obtain r2 h2 where c: "hconvert_list depth xs h1 = (r2, h2)" by fastforce
    from list_result_den[OF b a c] run a c
    show "out_rel (den F h') res (convert_arrow_value_to_python X)"
      by (cases r2) (auto simp: X)
  qed
next
  case (6 depth flds h)
  show ?case
  proof (intro allI impI)
    fix F res h' X
    assume run: "hconvert_arrow (Suc depth) (HStructArray flds) h = (res, h')"
      and i: "inden F h (HStructArray flds) X" and b: "\<forall>a\<in>F. a < length h"
    from i obtain pflds where X: "X = StructArray pflds" and fl: "frel F h flds pflds"
      by (auto simp: frel_def elim: inden_HStructE)
    let ?r = "length h" and ?F = "insert (length h) F" and ?h0 = "h @ [HDict []]"
    have b0: "\<forall>a\<in>?F. a < length ?h0" using b by auto
    from frel_forbid_fresh[OF fl, of "{?r}"] have "frel ?F h flds pflds" by simp
    from frel_transfer[OF this agree_except_append[of "{}"]] have fl0: "frel ?F ?h0 flds pflds"
      by simp
    from fl have names: "map fst flds = map fst pflds" by (simp add: frel_def)
    obtain r1 h1 where l: "hstruct_array_loop depth (map fst flds) flds ?r ?h0 = (r1, h1)"
      by fastforce
    have cur: "?h0 ! ?r = HDict []" by simp
    from 6[OF refl refl] l fl0 b0 cur drel_Nil[of ?F ?h0]
    have "out_rel (\<lambda>u dp. \<exists>d'. h1 ! ?r = HDict d' \<and> drel ?F h1 d' dp) r1
        (struct_array_loop (map fst flds) pflds [])"
      by blast
    then have o: "out_rel (\<lambda>u dp. \<exists>d'. h1 ! ?r = HDict d' \<and> drel ?F h1 d' dp) r1
        (struct_array_loop (map fst pflds) pflds [])"
      by (simp only: names)
    from hconvert_arrow_frame(2) l have fr: "agree_except {?r} ?h0 h1" by blast
    show "out_rel (den F h') res (convert_arrow_value_to_python X)"
    proof (cases r1)
      case (Inl e)
      with run l have "res = Inl e" by (simp add: Let_def)
      with o Inl show ?thesis by (auto simp: X out_rel_Inl)
    next
      case (Inr u)
      with run l have res: "res = Inr (HRef ?r)" and h': "h' = h1" by (simp_all add: Let_def)
      from o Inr obtain dp d' where dp: "struct_array_loop (map fst pflds) pflds [] = Inr dp"
        and obj: "h1 ! ?r = HDict d'" and rel: "drel ?F h1 d' dp"
        by (auto simp: out_rel_Inr)
      from fresh_result_den[OF b fr obj rel] dp show ?thesis
        by (simp add: X res h' out_rel_Inr)
    qed
  qed
next
  case (7 depth ps h)
  show ?case
  proof (intro allI impI)
    fix F res h' X
    assume run: "hconvert_arrow (Suc depth) (HArray ps) h = (res, h')"
      and i: "inden F h (HArray ps) X" and b: "\<forall>a\<in>F. a < length h"
    from i have X: "X = Array ps" by (auto elim: inden_HArrayE)
    consider "length ps = 0" | "length ps = 1" | "1 < length ps" by linarith
    then show "out_rel (den F h') res (convert_arrow_value_to_python X)"
    proof cases
      case 1
      with run show ?thesis by (auto simp: X out_rel_Inr intro: den.intros)
    next
      case 2
      obtain x h1 where a: "alloc_py (ps ! 0) h = (x, h1)" by fastforce
      from run 2 a have c: "hconvert depth x h1 = (res, h')" by simp
      from scalar_result_den[OF b a c] 2 show ?thesis by (simp add: X)
    next
      case 3
      obtain xs h1 where a: "alloc_py_list ps h = (xs, h1)" by fastforce
      obtain r2 h2 where c: "hconvert_list depth xs h1 = (r2, h2)" by fastforce
      from list_result_den[OF b a c] run[unfolded hconvert_arrow_Array_many[OF 3]] a c
      show ?thesis
        unfolding X convert_Array_many[OF 3] by (cases r2) auto
    qed
  qed
next
  case (8 depth p h)
  show ?case
  proof (intro allI impI)
    fix F res h' X
    assume run: "hconvert_arrow (Suc depth) (HScalar p) h = (res, h')"
      and i: "inden F h (HScalar p) X" and b: "\<forall>a\<in>F. a < length h"
    from i have X: "X = Scalar p" by (auto elim: inden_HScalarE)
    obtain x h1 where a: "alloc_py p h = (x, h1)" by fastforce
    from run a have c: "hconvert depth x h1 = (res, h')" by simp
    from scalar_result_den[OF b a c] show "out_rel (den F h') res (convert_arrow_value_to_python X)"
      by (simp add: X)
  qed
next
  case (9 depth names r h)
  then show ?case by (auto simp: out_rel_def frel_Nil1)
next
  case (10 depth names name field_value flds r h)
  show ?case
  proof (intro allI impI)
    fix F res h' pflds cur curp
    assume run: "hstruct_array_loop depth names ((name, field_value) # flds) r h = (res, h')"
      and fl: "frel F h ((name, field_value) # flds) pflds" and r: "r \<in> F"
      and b: "\<forall>a\<in>F. a < length h" and cur: "h ! r = HDict cur" and dc: "drel F h cur curp"
    let ?R = "\<lambda>h' (u::unit) dp. \<exists>d'. h' ! r = HDict d' \<and> drel F h' d' dp"
    from fl obtain X pflds' where pf: "pflds = (name, X) # pflds'"
      and ix: "inden F h field_value X" and fl': "frel F h flds pflds'"
      by (auto simp: frel_Cons1)
    from r b have rlen: "r < length h" by blast
    show "out_rel (?R h') res (struct_array_loop names pflds curp)"
    proof (cases "count_list names name \<noteq> 1")
      case True
      with run have "res = Inl KeyError" by simp
      with True show ?thesis by (simp add: pf out_rel_Inl)
    next
      case c: False
      show ?thesis
      proof (cases "field_value \<noteq> HObj HNone")
        case False
        with inden_None_iff[OF ix] have pn: "X = Obj PyNone" by simp
        from False c run have "hstruct_array_loop depth names flds r h = (res, h')" by simp
        with 10(3)[OF c False] fl' r b cur dc
        have "out_rel (?R h') res (struct_array_loop names pflds' curp)" by blast
        with pn c show ?thesis by (simp add: pf)
      next
        case True
        with inden_None_iff[OF ix] have pn: "X \<noteq> Obj PyNone" by simp
        obtain r1 h1 where a: "hconvert_arrow depth field_value h = (r1, h1)" by fastforce
        from 10(1)[OF c True] a ix b
        have o1: "out_rel (den F h1) r1 (convert_arrow_value_to_python X)" by blast
        from hconvert_arrow_frame(1) a have fr1: "agree_except {} h h1" by blast
        show ?thesis
        proof (cases r1)
          case (Inl e)
          with run c True a have "res = Inl e" by simp
          with o1 Inl pn c show ?thesis by (auto simp: pf out_rel_Inl)
        next
          case v: (Inr v)
          with o1 obtain p' where p': "convert_arrow_value_to_python X = Inr p'"
            and dv: "den F h1 v p'"
            by (auto simp: out_rel_Inr)
          from agree_nth[OF fr1 rlen] cur have cur1: "h1 ! r = HDict cur" by simp
          from drel_transfer[OF dc fr1] have dc1: "drel F h1 cur curp" by simp
          from fr1 rlen have rlen1: "r < length h1" by (simp add: agree_except_def)
          have dk: "den F h1 (HStr name) (PyStr name)" by (rule den.den_Str)
          note si = hdict_setitem_den[OF dk dv r rlen1 cur1 dc1]
          show ?thesis
          proof (cases "hdict_setitem h1 r (HStr name) v")
            case (Inl e)
            with si have "dict_setitem curp (PyStr name) p' = Inl e" by blast
            moreover from run c True a v Inl have "res = Inl e" by simp
            ultimately show ?thesis using pn p' c by (simp add: pf out_rel_Inl)
          next
            case (Inr h2)
            with si obtain cur' curp' where s': "dict_setitem curp (PyStr name) p' = Inr curp'"
              and cur2: "h2 ! r = HDict cur'" and dc2: "drel F h2 cur' curp'"
              and fr2: "agree_except {r} h1 h2"
              by blast
            from run c True a v Inr
            have run': "hstruct_array_loop depth names flds r h2 = (res, h')" by simp
            have fr02: "agree_except {r} h h2"
              using agree_empty[OF fr1] fr2 by (rule agree_except_trans)
            from frel_transfer[OF fl' fr02] r have fl2: "frel F h2 flds pflds'" by simp
            from 10(2)[OF c True a[symmetric, unfolded v] refl Inr]
              run' fl2 r bound_mono[OF b fr02] cur2 dc2
            have "out_rel (?R h') res (struct_array_loop names pflds' curp')" by blast
            with pn p' s' c show ?thesis by (simp add: pf)
          qed
        qed
      qed
    qed
  qed
qed

section \<open>The claims\<close>

text \<open>
  Claim C1, as amended. The map branch does not coerce keys to text. When it returns,
  its result is a dictionary whose keys are source keys, unchanged and never \<^verbatim>\<open>None\<close>
  (each key is its own normalization), and every source key other than \<^verbatim>\<open>None\<close> has
  an entry. So a key of the output is text only where the source key is text.
\<close>

theorem map_keys_unchanged:
  assumes "convert_arrow_value_to_python (MapArray keys items) = Inr r"
  shows "\<exists>d. r = PyDict d \<and> set (map fst d) \<subseteq> set keys - {PyNone} \<and>
           (\<forall>k \<in> set keys. k \<noteq> PyNone \<longrightarrow> dict_get d k \<noteq> None) \<and>
           (\<forall>k \<in> set (map fst d). convert_arrow_value_to_python (Obj k) = Inr k)"
proof -
  from assms obtain d where d: "map_pairs keys items [] = Inr d" and r: "r = PyDict d"
    unfolding convert_map_array by (auto split: sum.splits)
  from map_pairs_keys[OF d] have sub: "set (map fst d) \<subseteq> set keys - {PyNone}" by simp
  have pres: "\<forall>k \<in> set keys. k \<noteq> PyNone \<longrightarrow> dict_get d k \<noteq> None"
    using map_pairs_present[OF d] by blast
  from map_pairs_stable[OF d dict_stable_Nil] have "list_all hashable (map fst d)"
    by (simp add: dict_stable_def dict_keys_ok_def)
  then have "\<forall>k \<in> set (map fst d). convert_arrow_value_to_python (Obj k) = Inr k"
    by (auto simp: list_all_iff convert_py_hashable)
  with r sub pres show ?thesis by blast
qed

text \<open>A map with an integer key, a \<^verbatim>\<open>None\<close> key and a text key.\<close>

theorem map_keys_unchanged_witness:
  "convert_arrow_value_to_python (MapArray [PyInt 10, PyNone, PyStr ''a''] [PyStr ''x'', PyInt 0, PyNone])
     = Inr (PyDict [(PyInt 10, PyStr ''x''), (PyStr ''a'', PyNone)]) \<and>
   (\<exists>d. PyDict [(PyInt 10, PyStr ''x''), (PyStr ''a'', PyNone)] = PyDict d \<and>
        set (map fst d) \<subseteq> set [PyInt 10, PyNone, PyStr ''a''] - {PyNone})"
proof -
  have run: "convert_arrow_value_to_python (MapArray [PyInt 10, PyNone, PyStr ''a''] [PyStr ''x'', PyInt 0, PyNone])
     = Inr (PyDict [(PyInt 10, PyStr ''x''), (PyStr ''a'', PyNone)])"
    by (simp add: convert_map_array dict_setitem_def py_eq_def)
  from map_keys_unchanged[OF run] run show ?thesis by blast
qed

text \<open>
  Claim C1 as stated fails: the map \<^verbatim>\<open>{10: "x", 20: "y"}\<close> is converted to a dictionary
  with the integer keys 10 and 20, not with the texts \<^verbatim>\<open>"10"\<close> and \<^verbatim>\<open>"20"\<close>.
\<close>

theorem map_int_keys_stay_int:
  "convert_arrow_value_to_python (MapArray [PyInt 10, PyInt 20] [PyStr ''x'', PyStr ''y''])
     = Inr (PyDict [(PyInt 10, PyStr ''x''), (PyInt 20, PyStr ''y'')]) \<and>
   convert_arrow_value_to_python (MapArray [PyInt 10, PyInt 20] [PyStr ''x'', PyStr ''y''])
     \<noteq> Inr (PyDict [(PyStr ''10'', PyStr ''x''), (PyStr ''20'', PyStr ''y'')])"
  by (simp add: convert_map_array dict_setitem_def py_eq_def)

text \<open>
  Claim C2. An array handed over in place of a single value (any \<^verbatim>\<open>pa.Array\<close> that is
  not a map, list or struct array): of length 0 it is converted to \<^verbatim>\<open>None\<close>; of
  length 1 to the conversion of its sole element; of a greater length to the list of
  the conversions of its elements, in order.
\<close>

theorem column_wrapper_unwrapped:
  "(length xs = 0 \<longrightarrow> convert_arrow_value_to_python (Array xs) = Inr PyNone) \<and>
   (length xs = 1 \<longrightarrow>
      convert_arrow_value_to_python (Array xs) = convert_arrow_value_to_python (Scalar (xs ! 0))) \<and>
   (1 < length xs \<longrightarrow>
      (convert_arrow_value_to_python (Array xs) = Inr r \<longleftrightarrow>
         (\<exists>ys. r = PyList ys \<and>
            list_all2 (\<lambda>x y. convert_arrow_value_to_python (Scalar x) = Inr y) xs ys)))"
proof (intro conjI impI)
  assume "length xs = 0"
  then show "convert_arrow_value_to_python (Array xs) = Inr PyNone" by simp
next
  assume "length xs = 1"
  then show "convert_arrow_value_to_python (Array xs) = convert_arrow_value_to_python (Scalar (xs ! 0))"
    by simp
next
  assume many: "1 < length xs"
  show "convert_arrow_value_to_python (Array xs) = Inr r \<longleftrightarrow>
         (\<exists>ys. r = PyList ys \<and>
            list_all2 (\<lambda>x y. convert_arrow_value_to_python (Scalar x) = Inr y) xs ys)"
    unfolding convert_Array_many[OF many]
    by (cases "convert_py_list xs") (auto simp: convert_py_list_iff[symmetric])
qed

text \<open>The three cases at arrays of length 0, 1 and 2.\<close>

theorem column_wrapper_unwrapped_witness:
  "convert_arrow_value_to_python (Array []) = Inr PyNone \<and>
   convert_arrow_value_to_python (Array [PyList [PyInt 7]]) =
     convert_arrow_value_to_python (Scalar (PyList [PyInt 7])) \<and>
   (convert_arrow_value_to_python (Array [PyInt 1, PyNone]) = Inr (PyList [PyInt 1, PyNone])) =
     (\<exists>ys. PyList [PyInt 1, PyNone] = PyList ys \<and>
        list_all2 (\<lambda>x y. convert_arrow_value_to_python (Scalar x) = Inr y) [PyInt 1, PyNone] ys) \<and>
   convert_arrow_value_to_python (Array [PyInt 1, PyNone]) = Inr (PyList [PyInt 1, PyNone])"
  using column_wrapper_unwrapped[of "[]"]
    column_wrapper_unwrapped[of "[PyList [PyInt 7]]"]
    column_wrapper_unwrapped[of "[PyInt 1, PyNone]" "PyList [PyInt 1, PyNone]"]
  by simp

text \<open>
  Claim C3. \<^verbatim>\<open>value.field(name)\<close> returns the child array of the field, a \<^verbatim>\<open>pa.Array\<close>
  and never \<^verbatim>\<open>None\<close> (for a name that the struct type has twice it raises
  \<^verbatim>\<open>KeyError\<close>). When the conversion of a struct returns, the output dictionary has one
  entry for every schema field, in schema order, under the field's name and holding the
  field's conversion; a field whose value is null (its child array holds the null) is
  mapped to \<^verbatim>\<open>None\<close>: it has an entry like every other field. The conversion returns
  whenever the field names are distinct and every field converts.
\<close>

theorem struct_every_field_kept_in_order:
  assumes "\<forall>field_value \<in> snd ` set flds. field_value \<noteq> Obj PyNone"
  shows "(convert_arrow_value_to_python (StructArray flds) = Inr r \<longrightarrow>
            (\<exists>d. r = PyDict d \<and>
               list_all2 (\<lambda>(name, field_value) (k, v).
                  k = PyStr name \<and> convert_arrow_value_to_python field_value = Inr v) flds d \<and>
               (\<forall>name. (name, Array [PyNone]) \<in> set flds \<longrightarrow>
                  dict_get d (PyStr name) = Some PyNone))) \<and>
         (distinct (map fst flds) \<and>
          list_all2 (\<lambda>(name, field_value) (k, v).
             k = PyStr name \<and> convert_arrow_value_to_python field_value = Inr v) flds d' \<longrightarrow>
            convert_arrow_value_to_python (StructArray flds) = Inr (PyDict d'))"
proof (intro conjI impI)
  assume run: "convert_arrow_value_to_python (StructArray flds) = Inr r"
  have n: "convert_arrow_value_to_python (Array [PyNone]) = Inr PyNone" by simp
  from convert_struct_entries[OF run assms] obtain d where d: "r = PyDict d"
    and all: "list_all2 (\<lambda>(name, field_value) (k, v).
           k = PyStr name \<and> convert_arrow_value_to_python field_value = Inr v) flds d"
    and vals: "\<forall>name field_value v. (name, field_value) \<in> set flds \<and>
               convert_arrow_value_to_python field_value = Inr v \<longrightarrow>
               dict_get d (PyStr name) = Some v"
    by blast
  from vals n have "\<forall>name. (name, Array [PyNone]) \<in> set flds \<longrightarrow>
      dict_get d (PyStr name) = Some PyNone"
    by blast
  with d all show "\<exists>d. r = PyDict d \<and>
               list_all2 (\<lambda>(name, field_value) (k, v).
                  k = PyStr name \<and> convert_arrow_value_to_python field_value = Inr v) flds d \<and>
               (\<forall>name. (name, Array [PyNone]) \<in> set flds \<longrightarrow>
                  dict_get d (PyStr name) = Some PyNone)"
    by blast
next
  assume h: "distinct (map fst flds) \<and>
          list_all2 (\<lambda>(name, field_value) (k, v).
             k = PyStr name \<and> convert_arrow_value_to_python field_value = Inr v) flds d'"
  from assms have "filter (\<lambda>(name, field_value). field_value \<noteq> Obj PyNone) flds = flds"
    by (auto simp: filter_id_conv)
  with h convert_struct_iff[of flds "PyDict d'"]
  show "convert_arrow_value_to_python (StructArray flds) = Inr (PyDict d')"
    by simp
qed

text \<open>
  A struct with the schema fields \<open>a\<close>, \<open>b\<close> and \<open>c\<close> whose field \<open>b\<close> is null: the
  output has the keys \<open>a\<close>, \<open>b\<close>, \<open>c\<close>, in this order, with \<open>b\<close> mapped to \<^verbatim>\<open>None\<close>.
\<close>

theorem struct_every_field_kept_in_order_witness:
  "distinct (map fst [(''a'', Array [PyInt 1]), (''b'', Array [PyNone]), (''c'', Array [PyInt 3])]) \<and>
   convert_arrow_value_to_python
      (StructArray [(''a'', Array [PyInt 1]), (''b'', Array [PyNone]), (''c'', Array [PyInt 3])])
     = Inr (PyDict [(PyStr ''a'', PyInt 1), (PyStr ''b'', PyNone), (PyStr ''c'', PyInt 3)]) \<and>
   dict_get [(PyStr ''a'', PyInt 1), (PyStr ''b'', PyNone), (PyStr ''c'', PyInt 3)] (PyStr ''b'')
     = Some PyNone"
proof -
  let ?flds = "[(''a'', Array [PyInt 1]), (''b'', Array [PyNone]), (''c'', Array [PyInt 3])]"
  let ?d = "[(PyStr ''a'', PyInt 1), (PyStr ''b'', PyNone), (PyStr ''c'', PyInt 3)]"
  have d: "distinct (map fst ?flds)" by simp
  have a: "\<forall>field_value \<in> snd ` set ?flds. field_value \<noteq> Obj PyNone" by simp
  have each: "list_all2 (\<lambda>(name, field_value) (k, v).
      k = PyStr name \<and> convert_arrow_value_to_python field_value = Inr v) ?flds ?d"
    by simp
  note T = struct_every_field_kept_in_order[OF a, of "PyDict ?d" ?d]
  from T d each have run: "convert_arrow_value_to_python (StructArray ?flds) = Inr (PyDict ?d)"
    by blast
  have "(''b'', Array [PyNone]) \<in> set ?flds" by simp
  with T run have "dict_get ?d (PyStr ''b'') = Some PyNone" by blast
  with d run show ?thesis by blast
qed

text \<open>
  Claim C4, as amended. The map branch never compares the two lengths. When a key other
  than \<^verbatim>\<open>None\<close> stands at a position that has no value, the conversion raises
  \<^verbatim>\<open>IndexError\<close> or \<^verbatim>\<open>TypeError\<close> and returns nothing; it is \<^verbatim>\<open>IndexError\<close> when the
  pairs before the end of the values convert. When there are fewer keys than values,
  the surplus values are ignored: the result is that of the map without them.
\<close>

theorem map_length_mismatch:
  "(length items \<le> i \<and> i < length keys \<and> keys ! i \<noteq> PyNone \<longrightarrow>
      convert_arrow_value_to_python (MapArray keys items) = Inl IndexError \<or>
      convert_arrow_value_to_python (MapArray keys items) = Inl TypeError) \<and>
   (length items \<le> i \<and> i < length keys \<and> keys ! i \<noteq> PyNone \<and>
    convert_arrow_value_to_python (MapArray (take (length items) keys) items) = Inr r \<longrightarrow>
      convert_arrow_value_to_python (MapArray keys items) = Inl IndexError) \<and>
   (length keys \<le> length items \<longrightarrow>
      convert_arrow_value_to_python (MapArray keys items) =
      convert_arrow_value_to_python (MapArray keys (take (length keys) items)))"
proof (intro conjI impI)
  assume h: "length items \<le> i \<and> i < length keys \<and> keys ! i \<noteq> PyNone"
  have "\<not> (\<exists>d. map_pairs keys items [] = Inr d)"
  proof
    assume "\<exists>d. map_pairs keys items [] = Inr d"
    then obtain d where "map_pairs keys items [] = Inr d" ..
    from map_pairs_needs_item[OF this, of i] h show False by simp
  qed
  then obtain e where e: "map_pairs keys items [] = Inl e"
    by (cases "map_pairs keys items []") auto
  from map_pairs_errors[OF e] e
  show "convert_arrow_value_to_python (MapArray keys items) = Inl IndexError \<or>
      convert_arrow_value_to_python (MapArray keys items) = Inl TypeError"
    unfolding convert_map_array by auto
next
  assume h: "length items \<le> i \<and> i < length keys \<and> keys ! i \<noteq> PyNone \<and>
    convert_arrow_value_to_python (MapArray (take (length items) keys) items) = Inr r"
  then obtain d where d: "map_pairs (take (length items) keys) items [] = Inr d"
    unfolding convert_map_array by (auto split: sum.splits)
  have keys: "keys = take (length items) keys @ drop (length items) keys" by simp
  have len: "length (take (length items) keys) = length items" using h by simp
  have "i - length items < length (drop (length items) keys)"
    using h by auto
  moreover have "drop (length items) keys ! (i - length items) = keys ! i"
    using h by simp
  ultimately have "keys ! i \<in> set (drop (length items) keys)"
    by (metis nth_mem)
  with h have "\<not> list_all (\<lambda>k. k = PyNone) (drop (length items) keys)"
    by (auto simp: list_all_iff)
  then have "map_pairs keys items [] = Inl IndexError"
    using map_pairs_append[of "take (length items) keys" "drop (length items) keys" items "[]"] d len
    by (simp add: map_pairs_Nil_items)
  then show "convert_arrow_value_to_python (MapArray keys items) = Inl IndexError"
    unfolding convert_map_array by simp
next
  assume "length keys \<le> length items"
  from map_pairs_take[OF this]
  show "convert_arrow_value_to_python (MapArray keys items) =
      convert_arrow_value_to_python (MapArray keys (take (length keys) items))"
    unfolding convert_map_array by simp
qed

text \<open>Two keys with one value, and one key with two values.\<close>

theorem map_length_mismatch_witness:
  "(convert_arrow_value_to_python (MapArray [PyStr ''a'', PyStr ''b''] [PyInt 1]) = Inl IndexError \<or>
    convert_arrow_value_to_python (MapArray [PyStr ''a'', PyStr ''b''] [PyInt 1]) = Inl TypeError) \<and>
   convert_arrow_value_to_python (MapArray (take (length [PyInt 1]) [PyStr ''a'', PyStr ''b'']) [PyInt 1])
     = Inr (PyDict [(PyStr ''a'', PyInt 1)]) \<and>
   convert_arrow_value_to_python (MapArray [PyStr ''a'', PyStr ''b''] [PyInt 1]) = Inl IndexError \<and>
   convert_arrow_value_to_python (MapArray [PyStr ''a''] [PyInt 1, PyInt 2]) =
     convert_arrow_value_to_python (MapArray [PyStr ''a''] (take (length [PyStr ''a'']) [PyInt 1, PyInt 2]))"
proof -
  have pre: "convert_arrow_value_to_python
      (MapArray (take (length [PyInt 1]) [PyStr ''a'', PyStr ''b'']) [PyInt 1])
     = Inr (PyDict [(PyStr ''a'', PyInt 1)])"
    by (simp add: dict_setitem_def)
  show ?thesis
    using pre
      map_length_mismatch[of "[PyInt 1]" 1 "[PyStr ''a'', PyStr ''b'']" "PyDict [(PyStr ''a'', PyInt 1)]"]
      map_length_mismatch[of "[PyInt 1, PyInt 2]" 0 "[PyStr ''a'']" PyNone]
    by simp
qed

text \<open>
  Claim C4 as stated fails: one key with two values, and two keys (the second
  \<^verbatim>\<open>None\<close>) with one value, are converted without any error; two keys with one value
  raise \<^verbatim>\<open>IndexError\<close>.
\<close>

theorem map_length_mismatch_not_invariant_violation:
  "convert_arrow_value_to_python (MapArray [PyStr ''a''] [PyInt 1, PyInt 2])
     = Inr (PyDict [(PyStr ''a'', PyInt 1)]) \<and>
   convert_arrow_value_to_python (MapArray [PyStr ''a'', PyNone] [PyInt 1])
     = Inr (PyDict [(PyStr ''a'', PyInt 1)]) \<and>
   convert_arrow_value_to_python (MapArray [PyStr ''a'', PyStr ''b''] [PyInt 1]) = Inl IndexError"
  by (simp add: dict_setitem_def)

text \<open>
  Claim C6, as amended. A key normalizes to \<^verbatim>\<open>None\<close> exactly when it is \<^verbatim>\<open>None\<close>, and
  a pair with such a key is skipped: the result is that of the map without the pair.
  Keys are not coerced to text; two pairs collide when their keys are equal as Python
  keys, and then the output has one entry for them, holding the conversion of the value
  of the last pair with that key.
\<close>

theorem map_null_keys_skipped_last_write_wins:
  "(convert_arrow_value_to_python (Obj k) = Inr PyNone \<longleftrightarrow> k = PyNone) \<and>
   (length ks1 = length vs1 \<longrightarrow>
      convert_arrow_value_to_python (MapArray (ks1 @ PyNone # ks2) (vs1 @ v # vs2)) =
      convert_arrow_value_to_python (MapArray (ks1 @ ks2) (vs1 @ vs2))) \<and>
   (convert_arrow_value_to_python (MapArray keys items) = Inr r \<and>
    i < length keys \<and> keys ! i \<noteq> PyNone \<and>
    (\<forall>j. i < j \<and> j < length keys \<longrightarrow> \<not> py_eq (keys ! j) (keys ! i)) \<longrightarrow>
      (\<exists>d y. r = PyDict d \<and> distinct (map key_norm (map fst d)) \<and> i < length items \<and>
         convert_arrow_value_to_python (Obj (items ! i)) = Inr y \<and>
         dict_get d (keys ! i) = Some y))"
proof (intro conjI impI)
  show "convert_arrow_value_to_python (Obj k) = Inr PyNone \<longleftrightarrow> k = PyNone"
    by (simp add: convert_py_None_iff)
next
  assume "length ks1 = length vs1"
  from map_pairs_skip_None[OF this]
  show "convert_arrow_value_to_python (MapArray (ks1 @ PyNone # ks2) (vs1 @ v # vs2)) =
      convert_arrow_value_to_python (MapArray (ks1 @ ks2) (vs1 @ vs2))"
    unfolding convert_map_array by simp
next
  assume h: "convert_arrow_value_to_python (MapArray keys items) = Inr r \<and>
    i < length keys \<and> keys ! i \<noteq> PyNone \<and>
    (\<forall>j. i < j \<and> j < length keys \<longrightarrow> \<not> py_eq (keys ! j) (keys ! i))"
  then have a: "convert_arrow_value_to_python (MapArray keys items) = Inr r"
    and b: "i < length keys" and c: "keys ! i \<noteq> PyNone"
    and d: "\<forall>j. i < j \<and> j < length keys \<longrightarrow> \<not> py_eq (keys ! j) (keys ! i)"
    by blast+
  from map_value_at_last_key[OF a b c d]
  show "\<exists>d y. r = PyDict d \<and> distinct (map key_norm (map fst d)) \<and> i < length items \<and>
         convert_arrow_value_to_python (Obj (items ! i)) = Inr y \<and>
         dict_get d (keys ! i) = Some y"
    by simp
qed

text \<open>
  The map with the pairs \<^verbatim>\<open>(1, "a")\<close>, \<^verbatim>\<open>(None, "n")\<close>, \<^verbatim>\<open>(1, "b")\<close>, \<^verbatim>\<open>(2, "c")\<close>.
\<close>

theorem map_null_keys_skipped_last_write_wins_witness:
  "convert_arrow_value_to_python
      (MapArray ([PyInt 1] @ PyNone # [PyInt 1, PyInt 2])
                ([PyStr ''a''] @ PyStr ''n'' # [PyStr ''b'', PyStr ''c'']))
     = convert_arrow_value_to_python
         (MapArray ([PyInt 1] @ [PyInt 1, PyInt 2]) ([PyStr ''a''] @ [PyStr ''b'', PyStr ''c''])) \<and>
   convert_arrow_value_to_python
      (MapArray [PyInt 1, PyNone, PyInt 1, PyInt 2] [PyStr ''a'', PyStr ''n'', PyStr ''b'', PyStr ''c''])
     = Inr (PyDict [(PyInt 1, PyStr ''b''), (PyInt 2, PyStr ''c'')]) \<and>
   (\<exists>d y. PyDict [(PyInt 1, PyStr ''b''), (PyInt 2, PyStr ''c'')] = PyDict d \<and>
      distinct (map key_norm (map fst d)) \<and>
      convert_arrow_value_to_python (Obj ([PyStr ''a'', PyStr ''n'', PyStr ''b'', PyStr ''c''] ! 2)) = Inr y \<and>
      dict_get d ([PyInt 1, PyNone, PyInt 1, PyInt 2] ! 2) = Some y)"
proof -
  have run: "convert_arrow_value_to_python
      (MapArray [PyInt 1, PyNone, PyInt 1, PyInt 2] [PyStr ''a'', PyStr ''n'', PyStr ''b'', PyStr ''c''])
     = Inr (PyDict [(PyInt 1, PyStr ''b''), (PyInt 2, PyStr ''c'')])"
    by (simp add: convert_map_array dict_setitem_def py_eq_def)
  have last: "\<forall>j. 2 < j \<and> j < length [PyInt 1, PyNone, PyInt 1, PyInt 2] \<longrightarrow>
      \<not> py_eq ([PyInt 1, PyNone, PyInt 1, PyInt 2] ! j) ([PyInt 1, PyNone, PyInt 1, PyInt 2] ! 2)"
  proof (intro allI impI)
    fix j :: nat
    assume "2 < j \<and> j < length [PyInt 1, PyNone, PyInt 1, PyInt 2]"
    then have "j = 3" by simp
    then show "\<not> py_eq ([PyInt 1, PyNone, PyInt 1, PyInt 2] ! j) ([PyInt 1, PyNone, PyInt 1, PyInt 2] ! 2)"
      by (simp add: py_eq_def)
  qed
  have len: "length [PyInt 1] = length [PyStr ''a'']" by simp
  have idx: "(2::nat) < length [PyInt 1, PyNone, PyInt 1, PyInt 2]"
    "[PyInt 1, PyNone, PyInt 1, PyInt 2] ! 2 \<noteq> PyNone" by simp_all
  from map_null_keys_skipped_last_write_wins[of PyNone "[PyInt 1]" "[PyStr ''a'']" "[PyInt 1, PyInt 2]"
        "PyStr ''n''" "[PyStr ''b'', PyStr ''c'']" "[PyInt 1, PyNone, PyInt 1, PyInt 2]"
        "[PyStr ''a'', PyStr ''n'', PyStr ''b'', PyStr ''c'']"
        "PyDict [(PyInt 1, PyStr ''b''), (PyInt 2, PyStr ''c'')]" 2]
  have skip: "length [PyInt 1] = length [PyStr ''a''] \<longrightarrow>
      convert_arrow_value_to_python
        (MapArray ([PyInt 1] @ PyNone # [PyInt 1, PyInt 2])
                  ([PyStr ''a''] @ PyStr ''n'' # [PyStr ''b'', PyStr ''c''])) =
      convert_arrow_value_to_python
        (MapArray ([PyInt 1] @ [PyInt 1, PyInt 2]) ([PyStr ''a''] @ [PyStr ''b'', PyStr ''c'']))"
    and lww: "convert_arrow_value_to_python
        (MapArray [PyInt 1, PyNone, PyInt 1, PyInt 2] [PyStr ''a'', PyStr ''n'', PyStr ''b'', PyStr ''c''])
        = Inr (PyDict [(PyInt 1, PyStr ''b''), (PyInt 2, PyStr ''c'')]) \<and>
      2 < length [PyInt 1, PyNone, PyInt 1, PyInt 2] \<and>
      [PyInt 1, PyNone, PyInt 1, PyInt 2] ! 2 \<noteq> PyNone \<and>
      (\<forall>j. 2 < j \<and> j < length [PyInt 1, PyNone, PyInt 1, PyInt 2] \<longrightarrow>
        \<not> py_eq ([PyInt 1, PyNone, PyInt 1, PyInt 2] ! j) ([PyInt 1, PyNone, PyInt 1, PyInt 2] ! 2)) \<longrightarrow>
      (\<exists>d y. PyDict [(PyInt 1, PyStr ''b''), (PyInt 2, PyStr ''c'')] = PyDict d \<and>
         distinct (map key_norm (map fst d)) \<and>
         2 < length [PyStr ''a'', PyStr ''n'', PyStr ''b'', PyStr ''c''] \<and>
         convert_arrow_value_to_python (Obj ([PyStr ''a'', PyStr ''n'', PyStr ''b'', PyStr ''c''] ! 2)) = Inr y \<and>
         dict_get d ([PyInt 1, PyNone, PyInt 1, PyInt 2] ! 2) = Some y)"
    by blast+
  from lww run idx last
  have "\<exists>d y. PyDict [(PyInt 1, PyStr ''b''), (PyInt 2, PyStr ''c'')] = PyDict d \<and>
         distinct (map key_norm (map fst d)) \<and>
         2 < length [PyStr ''a'', PyStr ''n'', PyStr ''b'', PyStr ''c''] \<and>
         convert_arrow_value_to_python (Obj ([PyStr ''a'', PyStr ''n'', PyStr ''b'', PyStr ''c''] ! 2)) = Inr y \<and>
         dict_get d ([PyInt 1, PyNone, PyInt 1, PyInt 2] ! 2) = Some y"
    by blast
  then have "\<exists>d y. PyDict [(PyInt 1, PyStr ''b''), (PyInt 2, PyStr ''c'')] = PyDict d \<and>
         distinct (map key_norm (map fst d)) \<and>
         convert_arrow_value_to_python (Obj ([PyStr ''a'', PyStr ''n'', PyStr ''b'', PyStr ''c''] ! 2)) = Inr y \<and>
         dict_get d ([PyInt 1, PyNone, PyInt 1, PyInt 2] ! 2) = Some y"
    by blast
  with skip len run show ?thesis by blast
qed

text \<open>
  Claim C6 as stated fails: the keys \<^verbatim>\<open>1\<close> and \<^verbatim>\<open>"1"\<close> are written as the same text,
  and the output keeps an entry for each.
\<close>

theorem map_keys_with_same_text_both_kept:
  "json_key (PyInt 1) = json_key (PyStr ''1'') \<and>
   convert_arrow_value_to_python (MapArray [PyInt 1, PyStr ''1''] [PyStr ''a'', PyStr ''b''])
     = Inr (PyDict [(PyInt 1, PyStr ''a''), (PyStr ''1'', PyStr ''b'')])"
  by (simp add: convert_map_array dict_setitem_def py_eq_def show_int_def show_nat.simps digit_char_def)

text \<open>
  Claim C5: the end-to-end conversion of the two-row table. The code does not write the
  lines the claim gives. The row loop hands the converter a pyarrow scalar
  (\<^verbatim>\<open>col[i]\<close>), which line 58 turns into \<^verbatim>\<open>value.as_py()\<close>: for the map cell a list
  of tuples, so the map branch of lines 26-33 is never reached and the cell is written
  as a list of pairs. The two lines written are
  \<^verbatim>\<open>{"id": 1, "tags": [[10, "x"], [20, "y"]]}\<close> and \<^verbatim>\<open>{"id": 2, "tags": []}\<close>,
  and the conversion returns the row count 2.
\<close>

theorem end_to_end_map_column_written_as_pairs:
  "written (fst (convert_parquet_to_jsonl ''in.parquet'' ''out.jsonl'' example_world)) ''out.jsonl'' =
     Some (''{\"id\": 1, \"tags\": [[10, \"x\"], [20, \"y\"]]}'' @ [CHR 0x0A] @
           ''{\"id\": 2, \"tags\": []}'' @ [CHR 0x0A]) \<and>
   snd (convert_parquet_to_jsonl ''in.parquet'' ''out.jsonl'' example_world) = Inr 2"
  by (simp add: example_world_def example_table_def convert_parquet_to_jsonl_def column_names_def
      map_scalar_as_py_def dict_setitem_def py_eq_def json_string_def escape_char_def show_int_def
      show_nat.simps digit_char_def Let_def upt_rec)

text \<open>
  Claim C7, as amended. \<^verbatim>\<open>None\<close> is converted to \<^verbatim>\<open>None\<close>. A \<^verbatim>\<open>None\<close> that is an
  element of a list (a Python list or a list array) stays \<^verbatim>\<open>None\<close> at its position and
  the list keeps its length; a \<^verbatim>\<open>None\<close> that is the value of a map pair whose key is
  not \<^verbatim>\<open>None\<close> and is not repeated by a later pair is stored as \<^verbatim>\<open>None\<close> under that
  key, and every key other than \<^verbatim>\<open>None\<close> keeps an entry; a \<^verbatim>\<open>None\<close> that is a value of
  a dictionary stays \<^verbatim>\<open>None\<close> under its key and the keys are unchanged; a struct field
  that is null (its child array, which \<^verbatim>\<open>value.field(name)\<close> returns, holds the null)
  is mapped to \<^verbatim>\<open>None\<close> under its name and every field keeps its entry, in order.
  A \<^verbatim>\<open>None\<close> that is the value of a map pair whose key a later pair repeats is
  replaced by the value of the later pair.
\<close>

theorem null_preserved_unless_map_key_repeated:
  "convert_arrow_value_to_python (Obj PyNone) = Inr PyNone \<and>
   (convert_arrow_value_to_python (Obj (PyList xs)) = Inr r1 \<longrightarrow>
      (\<exists>ys. r1 = PyList ys \<and> length ys = length xs \<and>
         (\<forall>i<length xs. xs ! i = PyNone \<longrightarrow> ys ! i = PyNone))) \<and>
   (convert_arrow_value_to_python (ListArray xs) = Inr r2 \<longrightarrow>
      (\<exists>ys. r2 = PyList ys \<and> length ys = length xs \<and>
         (\<forall>i<length xs. xs ! i = PyNone \<longrightarrow> ys ! i = PyNone))) \<and>
   (convert_arrow_value_to_python (MapArray keys items) = Inr r3 \<and>
    i < length keys \<and> i < length items \<and> keys ! i \<noteq> PyNone \<and> items ! i = PyNone \<and>
    (\<forall>j. i < j \<and> j < length keys \<longrightarrow> \<not> py_eq (keys ! j) (keys ! i)) \<longrightarrow>
      (\<exists>d. r3 = PyDict d \<and> dict_get d (keys ! i) = Some PyNone \<and>
         (\<forall>k \<in> set keys. k \<noteq> PyNone \<longrightarrow> dict_get d k \<noteq> None))) \<and>
   (convert_arrow_value_to_python (Obj (PyDict kvs)) = Inr r4 \<and>
    distinct (map key_norm (map fst kvs)) \<longrightarrow>
      (\<exists>d. r4 = PyDict d \<and> map fst d = map fst kvs \<and>
         (\<forall>i<length kvs. snd (kvs ! i) = PyNone \<longrightarrow> snd (d ! i) = PyNone))) \<and>
   (convert_arrow_value_to_python (StructArray flds) = Inr r5 \<and>
    (\<forall>field_value \<in> snd ` set flds. field_value \<noteq> Obj PyNone) \<longrightarrow>
      (\<exists>d. r5 = PyDict d \<and>
         map fst d = map (\<lambda>(name, field_value). PyStr name) flds \<and>
         (\<forall>name. (name, Array [PyNone]) \<in> set flds \<longrightarrow>
             dict_get d (PyStr name) = Some PyNone)))"
proof (intro conjI impI)
  show "convert_arrow_value_to_python (Obj PyNone) = Inr PyNone" by simp
next
  assume "convert_arrow_value_to_python (Obj (PyList xs)) = Inr r1"
  then obtain ys where "convert_py_list xs = Inr ys" "r1 = PyList ys"
    by (auto split: sum.splits)
  with list_all2_None_preserved[of xs ys]
  show "\<exists>ys. r1 = PyList ys \<and> length ys = length xs \<and>
         (\<forall>i<length xs. xs ! i = PyNone \<longrightarrow> ys ! i = PyNone)"
    by (simp add: convert_py_list_iff)
next
  assume "convert_arrow_value_to_python (ListArray xs) = Inr r2"
  then obtain ys where "convert_py_list xs = Inr ys" "r2 = PyList ys"
    by (auto split: sum.splits)
  with list_all2_None_preserved[of xs ys]
  show "\<exists>ys. r2 = PyList ys \<and> length ys = length xs \<and>
         (\<forall>i<length xs. xs ! i = PyNone \<longrightarrow> ys ! i = PyNone)"
    by (simp add: convert_py_list_iff)
next
  assume h: "convert_arrow_value_to_python (MapArray keys items) = Inr r3 \<and>
    i < length keys \<and> i < length items \<and> keys ! i \<noteq> PyNone \<and> items ! i = PyNone \<and>
    (\<forall>j. i < j \<and> j < length keys \<longrightarrow> \<not> py_eq (keys ! j) (keys ! i))"
  then have a: "convert_arrow_value_to_python (MapArray keys items) = Inr r3"
    and b: "i < length keys" and c: "keys ! i \<noteq> PyNone" and n: "items ! i = PyNone"
    and l: "\<forall>j. i < j \<and> j < length keys \<longrightarrow> \<not> py_eq (keys ! j) (keys ! i)"
    by blast+
  from map_value_at_last_key[OF a b c l] n obtain d where
    d: "r3 = PyDict d" "dict_get d (keys ! i) = Some PyNone"
    by auto
  from map_values_present[OF a] d(1)
  have "\<forall>k \<in> set keys. k \<noteq> PyNone \<longrightarrow> dict_get d k \<noteq> None" by simp
  with d show "\<exists>d. r3 = PyDict d \<and> dict_get d (keys ! i) = Some PyNone \<and>
         (\<forall>k \<in> set keys. k \<noteq> PyNone \<longrightarrow> dict_get d k \<noteq> None)"
    by blast
next
  assume "convert_arrow_value_to_python (Obj (PyDict kvs)) = Inr r4 \<and>
    distinct (map key_norm (map fst kvs))"
  then show "\<exists>d. r4 = PyDict d \<and> map fst d = map fst kvs \<and>
         (\<forall>i<length kvs. snd (kvs ! i) = PyNone \<longrightarrow> snd (d ! i) = PyNone)"
    using convert_dict_distinct by blast
next
  assume h: "convert_arrow_value_to_python (StructArray flds) = Inr r5 \<and>
    (\<forall>field_value \<in> snd ` set flds. field_value \<noteq> Obj PyNone)"
  then have run: "convert_arrow_value_to_python (StructArray flds) = Inr r5"
    and arrays: "\<forall>field_value \<in> snd ` set flds. field_value \<noteq> Obj PyNone"
    by blast+
  have n: "convert_arrow_value_to_python (Array [PyNone]) = Inr PyNone" by simp
  from convert_struct_entries[OF run arrays] obtain d where d: "r5 = PyDict d"
    and keys: "map fst d = map (\<lambda>(name, field_value). PyStr name) flds"
    and vals: "\<forall>name field_value v. (name, field_value) \<in> set flds \<and>
               convert_arrow_value_to_python field_value = Inr v \<longrightarrow>
               dict_get d (PyStr name) = Some v"
    by blast
  from vals n have "\<forall>name. (name, Array [PyNone]) \<in> set flds \<longrightarrow>
             dict_get d (PyStr name) = Some PyNone"
    by blast
  with d keys show "\<exists>d. r5 = PyDict d \<and>
         map fst d = map (\<lambda>(name, field_value). PyStr name) flds \<and>
         (\<forall>name. (name, Array [PyNone]) \<in> set flds \<longrightarrow>
             dict_get d (PyStr name) = Some PyNone)"
    by blast
qed

text \<open>
  A list, a map array, a dictionary and a struct array, each with a \<^verbatim>\<open>None\<close>. In the
  map the key \<open>a\<close> of the \<^verbatim>\<open>None\<close> value is followed by another key.
\<close>

theorem null_preserved_unless_map_key_repeated_witness:
  "convert_arrow_value_to_python (Obj (PyList [PyInt 1, PyNone])) = Inr (PyList [PyInt 1, PyNone]) \<and>
   convert_arrow_value_to_python (ListArray [PyInt 1, PyNone]) = Inr (PyList [PyInt 1, PyNone]) \<and>
   convert_arrow_value_to_python (MapArray [PyStr ''a'', PyStr ''b''] [PyNone, PyInt 2])
     = Inr (PyDict [(PyStr ''a'', PyNone), (PyStr ''b'', PyInt 2)]) \<and>
   (\<exists>d. PyDict [(PyStr ''a'', PyNone), (PyStr ''b'', PyInt 2)] = PyDict d \<and>
        dict_get d ([PyStr ''a'', PyStr ''b''] ! 0) = Some PyNone) \<and>
   convert_arrow_value_to_python (Obj (PyDict [(PyStr ''x'', PyNone), (PyStr ''y'', PyInt 1)]))
     = Inr (PyDict [(PyStr ''x'', PyNone), (PyStr ''y'', PyInt 1)]) \<and>
   distinct (map key_norm (map fst [(PyStr ''x'', PyNone), (PyStr ''y'', PyInt 1)])) \<and>
   convert_arrow_value_to_python
      (StructArray [(''a'', Array [PyInt 1]), (''b'', Array [PyNone]), (''c'', Array [PyInt 3])])
     = Inr (PyDict [(PyStr ''a'', PyInt 1), (PyStr ''b'', PyNone), (PyStr ''c'', PyInt 3)]) \<and>
   (\<exists>d. PyDict [(PyStr ''a'', PyInt 1), (PyStr ''b'', PyNone), (PyStr ''c'', PyInt 3)] = PyDict d \<and>
        map fst d = map (\<lambda>(name, field_value). PyStr name)
           [(''a'', Array [PyInt 1]), (''b'', Array [PyNone]), (''c'', Array [PyInt 3])] \<and>
        dict_get d (PyStr ''b'') = Some PyNone)"
proof -
  let ?flds = "[(''a'', Array [PyInt 1]), (''b'', Array [PyNone]), (''c'', Array [PyInt 3])]"
  let ?sd = "[(PyStr ''a'', PyInt 1), (PyStr ''b'', PyNone), (PyStr ''c'', PyInt 3)]"
  have l1: "convert_arrow_value_to_python (Obj (PyList [PyInt 1, PyNone])) = Inr (PyList [PyInt 1, PyNone])"
    by simp
  have l2: "convert_arrow_value_to_python (ListArray [PyInt 1, PyNone]) = Inr (PyList [PyInt 1, PyNone])"
    by simp
  have m: "convert_arrow_value_to_python (MapArray [PyStr ''a'', PyStr ''b''] [PyNone, PyInt 2])
     = Inr (PyDict [(PyStr ''a'', PyNone), (PyStr ''b'', PyInt 2)])"
    by (simp add: convert_map_array dict_setitem_def py_eq_def)
  have mh: "(0::nat) < length [PyStr ''a'', PyStr ''b'']" "(0::nat) < length [PyNone, PyInt 2]"
    "[PyStr ''a'', PyStr ''b''] ! 0 \<noteq> PyNone" "[PyNone, PyInt 2] ! 0 = PyNone"
    by simp_all
  have ml: "\<forall>j. 0 < j \<and> j < length [PyStr ''a'', PyStr ''b''] \<longrightarrow>
      \<not> py_eq ([PyStr ''a'', PyStr ''b''] ! j) ([PyStr ''a'', PyStr ''b''] ! 0)"
  proof (intro allI impI)
    fix j :: nat
    assume "0 < j \<and> j < length [PyStr ''a'', PyStr ''b'']"
    then have "j = 1" by simp
    then show "\<not> py_eq ([PyStr ''a'', PyStr ''b''] ! j) ([PyStr ''a'', PyStr ''b''] ! 0)"
      by (simp add: py_eq_def)
  qed
  have dc: "convert_arrow_value_to_python (Obj (PyDict [(PyStr ''x'', PyNone), (PyStr ''y'', PyInt 1)]))
     = Inr (PyDict [(PyStr ''x'', PyNone), (PyStr ''y'', PyInt 1)])"
    by (simp add: dict_setitem_def py_eq_def)
  have dd: "distinct (map key_norm (map fst [(PyStr ''x'', PyNone), (PyStr ''y'', PyInt 1)]))"
    by simp
  have s: "convert_arrow_value_to_python (StructArray ?flds) = Inr (PyDict ?sd)"
    by (simp add: dict_setitem_def py_eq_def)
  have sa: "\<forall>field_value \<in> snd ` set ?flds. field_value \<noteq> Obj PyNone" by simp
  have sb: "(''b'', Array [PyNone]) \<in> set ?flds" by simp
  note T = null_preserved_unless_map_key_repeated[where xs = "[PyInt 1, PyNone]"
      and ?r1.0 = "PyList [PyInt 1, PyNone]" and ?r2.0 = "PyList [PyInt 1, PyNone]"
      and keys = "[PyStr ''a'', PyStr ''b'']" and items = "[PyNone, PyInt 2]"
      and ?r3.0 = "PyDict [(PyStr ''a'', PyNone), (PyStr ''b'', PyInt 2)]" and i = 0
      and kvs = "[(PyStr ''x'', PyNone), (PyStr ''y'', PyInt 1)]"
      and ?r4.0 = "PyDict [(PyStr ''x'', PyNone), (PyStr ''y'', PyInt 1)]"
      and flds = ?flds and ?r5.0 = "PyDict ?sd"]
  from T m mh ml have c3: "\<exists>d. PyDict [(PyStr ''a'', PyNone), (PyStr ''b'', PyInt 2)] = PyDict d \<and>
        dict_get d ([PyStr ''a'', PyStr ''b''] ! 0) = Some PyNone"
    by blast
  from T s sa sb have c5: "\<exists>d. PyDict ?sd = PyDict d \<and>
        map fst d = map (\<lambda>(name, field_value). PyStr name) ?flds \<and>
        dict_get d (PyStr ''b'') = Some PyNone"
    by blast
  from l1 l2 m c3 dc dd s c5 show ?thesis by blast
qed

text \<open>
  Claim C7 as stated fails: in a map whose two pairs have the key \<open>a\<close>, the \<^verbatim>\<open>None\<close>
  value of the first pair does not appear in the output, where \<open>a\<close> holds the value of
  the second pair.
\<close>

theorem map_null_value_overwritten:
  "convert_arrow_value_to_python (MapArray [PyStr ''a'', PyStr ''a''] [PyNone, PyInt 1])
     = Inr (PyDict [(PyStr ''a'', PyInt 1)]) \<and>
   dict_get [(PyStr ''a'', PyInt 1)] (PyStr ''a'') \<noteq> Some PyNone"
  by (simp add: convert_map_array dict_setitem_def py_eq_def)



text \<open>
  Claim C9. The converter has no side effect and is deterministic. Run on a store of
  objects, it leaves every object that existed before the call as it was: what it
  writes, it writes to objects it has allocated itself. And its outcome depends on the
  value of its argument only: two runs, from any two stores and with any two recursion
  limits, on arguments that hold the same value, neither running into the recursion
  limit, raise the same exception or return results that hold the same value, the one
  the converter computes on values.
\<close>

theorem converter_deterministic_no_side_effects:
  "(hconvert_arrow depth x h = (res, h') \<longrightarrow> take (length h) h' = h) \<and>
   (hconvert_arrow depth1 x1 h1 = (res1, h1') \<and> hconvert_arrow depth2 x2 h2 = (res2, h2') \<and>
    inden {} h1 x1 X \<and> inden {} h2 x2 X \<and>
    res1 \<noteq> Inl RecursionError \<and> res2 \<noteq> Inl RecursionError \<longrightarrow>
      (\<exists>e. res1 = Inl e \<and> res2 = Inl e \<and> convert_arrow_value_to_python X = Inl e) \<or>
      (\<exists>y1 y2 p. res1 = Inr y1 \<and> res2 = Inr y2 \<and> convert_arrow_value_to_python X = Inr p \<and>
         den {} h1' y1 p \<and> den {} h2' y2 p))"
proof (intro conjI impI)
  assume "hconvert_arrow depth x h = (res, h')"
  with hconvert_arrow_frame(1) have "agree_except {} h h'" by blast
  then show "take (length h) h' = h" by (simp add: agree_except_empty_take)
next
  assume a: "hconvert_arrow depth1 x1 h1 = (res1, h1') \<and> hconvert_arrow depth2 x2 h2 = (res2, h2') \<and>
    inden {} h1 x1 X \<and> inden {} h2 x2 X \<and>
    res1 \<noteq> Inl RecursionError \<and> res2 \<noteq> Inl RecursionError"
  then have r1: "hconvert_arrow depth1 x1 h1 = (res1, h1')" and i1: "inden {} h1 x1 X"
    and r2: "hconvert_arrow depth2 x2 h2 = (res2, h2')" and i2: "inden {} h2 x2 X"
    and n1: "res1 \<noteq> Inl RecursionError" and n2: "res2 \<noteq> Inl RecursionError"
    by blast+
  from hconvert_arrow_den(1) r1 i1
  have o1: "out_rel (den {} h1') res1 (convert_arrow_value_to_python X)" by blast
  from hconvert_arrow_den(1) r2 i2
  have o2: "out_rel (den {} h2') res2 (convert_arrow_value_to_python X)" by blast
  show "(\<exists>e. res1 = Inl e \<and> res2 = Inl e \<and> convert_arrow_value_to_python X = Inl e) \<or>
      (\<exists>y1 y2 p. res1 = Inr y1 \<and> res2 = Inr y2 \<and> convert_arrow_value_to_python X = Inr p \<and>
         den {} h1' y1 p \<and> den {} h2' y2 p)"
  proof (cases "convert_arrow_value_to_python X")
    case (Inl e)
    with o1 o2 n1 n2 show ?thesis
      by (cases res1; cases res2) (auto simp: out_rel_def)
  next
    case (Inr p)
    with o1 o2 n1 n2 show ?thesis
      by (cases res1; cases res2) (auto simp: out_rel_def)
  qed
qed

text \<open>
  The same map array converted from the empty store and from a store that holds a list
  containing itself.
\<close>

theorem converter_deterministic_no_side_effects_witness:
  "hconvert_arrow 5 (HMapArray [PyInt 10, PyNone, PyInt 10] [PyList [PyNone], PyInt 0, PyStr ''x'']) []
     = (Inr (HRef 0), [HDict [(PyInt 10, HStr ''x'')], HList [HNone], HList [HNone]]) \<and>
   hconvert_arrow 3 (HMapArray [PyInt 10, PyNone, PyInt 10] [PyList [PyNone], PyInt 0, PyStr ''x''])
       [HList [HRef 0]]
     = (Inr (HRef 1), [HList [HRef 0], HDict [(PyInt 10, HStr ''x'')], HList [HNone], HList [HNone]]) \<and>
   take (length [HList [HRef 0]])
       [HList [HRef 0], HDict [(PyInt 10, HStr ''x'')], HList [HNone], HList [HNone]]
     = [HList [HRef 0]] \<and>
   (\<exists>p. convert_arrow_value_to_python
          (MapArray [PyInt 10, PyNone, PyInt 10] [PyList [PyNone], PyInt 0, PyStr ''x'']) = Inr p \<and>
        den {} [HDict [(PyInt 10, HStr ''x'')], HList [HNone], HList [HNone]] (HRef 0) p \<and>
        den {} [HList [HRef 0], HDict [(PyInt 10, HStr ''x'')], HList [HNone], HList [HNone]] (HRef 1) p)"
proof -
  let ?x = "HMapArray [PyInt 10, PyNone, PyInt 10] [PyList [PyNone], PyInt 0, PyStr ''x'']"
  let ?X = "MapArray [PyInt 10, PyNone, PyInt 10] [PyList [PyNone], PyInt 0, PyStr ''x'']"
  let ?h1' = "[HDict [(PyInt 10, HStr ''x'')], HList [HNone], HList [HNone]]"
  let ?h2 = "[HList [HRef 0]]"
  let ?h2' = "[HList [HRef 0], HDict [(PyInt 10, HStr ''x'')], HList [HNone], HList [HNone]]"
  have r1: "hconvert_arrow 5 ?x [] = (Inr (HRef 0), ?h1')"
    by (simp add: eval_nat_numeral hdict_setitem_def py_eq_def Let_def)
  have r2: "hconvert_arrow 3 ?x ?h2 = (Inr (HRef 1), ?h2')"
    by (simp add: eval_nat_numeral hdict_setitem_def py_eq_def Let_def)
  have i1: "inden {} [] ?x ?X" and i2: "inden {} ?h2 ?x ?X"
    by (rule inden.inden_Map)+
  have n: "(Inr (HRef 0) :: error + hval) \<noteq> Inl RecursionError"
    "(Inr (HRef 1) :: error + hval) \<noteq> Inl RecursionError"
    by simp_all
  note T = converter_deterministic_no_side_effects[where depth = 3 and x = ?x and h = ?h2
      and res = "Inr (HRef 1)" and h' = ?h2' and ?depth1.0 = 5 and ?x1.0 = ?x and ?h1.0 = "[]"
      and ?res1.0 = "Inr (HRef 0)" and ?h1' = ?h1' and ?depth2.0 = 3 and ?x2.0 = ?x
      and ?h2.0 = ?h2 and ?res2.0 = "Inr (HRef 1)" and ?h2' = ?h2' and X = ?X]
  from T r2 have fr: "take (length ?h2) ?h2' = ?h2" by blast
  from T r1 r2 i1 i2 n
  have "\<exists>y1 y2 p. (Inr (HRef 0) :: error + hval) = Inr y1 \<and> (Inr (HRef 1) :: error + hval) = Inr y2 \<and>
      convert_arrow_value_to_python ?X = Inr p \<and> den {} ?h1' y1 p \<and> den {} ?h2' y2 p"
    by blast
  then have "\<exists>p. convert_arrow_value_to_python ?X = Inr p \<and>
      den {} ?h1' (HRef 0) p \<and> den {} ?h2' (HRef 1) p"
    by simp
  with r1 r2 fr show ?thesis by blast
qed

text \<open>
  Claim C10. The converter is idempotent on its own output: where it returns a value,
  converting that value again returns it unchanged.
\<close>

theorem normalize_idempotent:
  "convert_arrow_value_to_python v = Inr r \<Longrightarrow> convert_arrow_value_to_python (Obj r) = Inr r"
  using convert_arrow_stable(1)[of v] by simp

text \<open>A map array with a list value: converted once, and once more.\<close>

theorem normalize_idempotent_witness:
  "convert_arrow_value_to_python (MapArray [PyInt 10, PyBool True] [PyList [PyNone], PyStr ''x''])
     = Inr (PyDict [(PyInt 10, PyList [PyNone]), (PyBool True, PyStr ''x'')]) \<and>
   convert_arrow_value_to_python (Obj (PyDict [(PyInt 10, PyList [PyNone]), (PyBool True, PyStr ''x'')]))
     = Inr (PyDict [(PyInt 10, PyList [PyNone]), (PyBool True, PyStr ''x'')])"
proof -
  have run: "convert_arrow_value_to_python (MapArray [PyInt 10, PyBool True] [PyList [PyNone], PyStr ''x''])
     = Inr (PyDict [(PyInt 10, PyList [PyNone]), (PyBool True, PyStr ''x'')])"
    by (simp add: convert_map_array dict_setitem_def py_eq_def)
  from normalize_idempotent[OF run] run show ?thesis by simp
qed

end
